theory Spec2Isabelle
  imports Complex_Main
begin

section \<open>Caption rendering of \<^verbatim>\<open>src/backend/engine.py\<close>\<close>

text \<open>
  The development embeds the pure core of \<^verbatim>\<open>engine.py\<close>: \<^verbatim>\<open>format_timestamp\<close>,
  \<^verbatim>\<open>apply_profanity_filter\<close> and \<^verbatim>\<open>generate_output\<close>.

  Modelling conventions.
  \<^item> A Python \<^verbatim>\<open>str\<close> is the list of its code points (\<open>pystr\<close>), so that \<^verbatim>\<open>len\<close> is
    \<open>length\<close>. Literals are written \<open>py ''...''\<close>; a line feed is the code point 10.
  \<^item> A Python \<^verbatim>\<open>float\<close> is \<open>pyfloat\<close>: a finite value, given by the rational number
    the double stands for, or one of the three non-finite values. Every operation on
    doubles rounds its exact result to the nearest double, ties to even (\<open>fl_round\<close>):
    the subtraction for the gap between segments, the multiplication inside
    \<^verbatim>\<open>datetime.timedelta\<close> and the two true divisions of integers in
    \<^verbatim>\<open>format_timestamp\<close>.
  \<^item> Python's unbounded \<^verbatim>\<open>int\<close> is \<open>int\<close>; \<^verbatim>\<open>//\<close> and \<^verbatim>\<open>%\<close> with a positive divisor
    are \<open>div\<close> and \<open>mod\<close>.
  \<^item> An exception is a value \<open>Inl e\<close> of a sum type.
\<close>

subsection \<open>Strings\<close>

type_synonym pystr = "nat list"

definition py :: "string \<Rightarrow> pystr" where
  "py s = map of_char s"

text \<open>The code points for which \<^verbatim>\<open>str.isspace\<close> holds; \<^verbatim>\<open>str.strip()\<close> removes them.\<close>

definition whitespace :: "nat list" where
  "whitespace = [9, 10, 11, 12, 13, 28, 29, 30, 31, 32, 133, 160, 5760,
     8192, 8193, 8194, 8195, 8196, 8197, 8198, 8199, 8200, 8201, 8202,
     8232, 8233, 8239, 8287, 12288]"

definition isspace :: "nat \<Rightarrow> bool" where
  "isspace c = (c \<in> set whitespace)"

definition strip :: "pystr \<Rightarrow> pystr" where
  "strip s = rev (dropWhile isspace (rev (dropWhile isspace s)))"

text \<open>\<^verbatim>\<open>sep.join(parts)\<close>.\<close>

fun str_join :: "pystr \<Rightarrow> pystr list \<Rightarrow> pystr" where
  "str_join sep [] = []"
| "str_join sep [x] = x"
| "str_join sep (x # y # ys) = x @ sep @ str_join sep (y # ys)"

text \<open>\<^verbatim>\<open>str(n)\<close> for a natural number: its decimal digits.\<close>

fun str_nat :: "nat \<Rightarrow> pystr" where
  "str_nat n = (if n < 10 then [48 + n] else str_nat (n div 10) @ [48 + n mod 10])"

declare str_nat.simps [simp del]

definition zfill :: "nat \<Rightarrow> pystr \<Rightarrow> pystr" where
  "zfill w s = replicate (w - length s) 48 @ s"

text \<open>
  The format specification \<^verbatim>\<open>{n:0w}\<close> of an f-string: sign-aware zero padding to the
  minimum width \<open>w\<close>; a longer number is not cut.
\<close>

definition format_int_zero :: "nat \<Rightarrow> int \<Rightarrow> pystr" where
  "format_int_zero w n =
     (if n < 0 then 45 # zfill (w - 1) (str_nat (nat (- n))) else zfill w (str_nat (nat n)))"

subsection \<open>Floats and \<^verbatim>\<open>datetime.timedelta\<close>\<close>

datatype pyfloat = Finite rat | PosInf | NegInf | NaN

datatype pyerror = ValueError | OverflowError

text \<open>\<^verbatim>\<open>int(x)\<close> truncates towards zero; \<^verbatim>\<open>round(x)\<close> rounds to nearest, ties to even.\<close>

definition py_int :: "rat \<Rightarrow> int" where
  "py_int x = (if 0 \<le> x then \<lfloor>x\<rfloor> else \<lceil>x\<rceil>)"

definition py_round :: "rat \<Rightarrow> int" where
  "py_round x =
     (let f = \<lfloor>x\<rfloor>; d = x - of_int f
      in if d < 1 / 2 then f else if 1 / 2 < d then f + 1 else if even f then f else f + 1)"

text \<open>
  Rounding to binary64. \<open>exponent y\<close> is the \<open>e\<close> with \<open>2 ^ e \<le> y < 2 ^ (e + 1)\<close> for a
  positive \<open>y\<close>; the spacing of the doubles around \<open>y\<close> is \<open>ulp y\<close>, with 53 significant
  bits and the least exponent \<open>- 1022\<close> (below it the spacing stays \<open>2 ^ - 1074\<close>);
  \<open>fl_round y\<close> is the multiple of \<open>ulp y\<close> nearest to \<open>y\<close>, ties to the even multiple.
  A result of magnitude \<open>2 ^ 1024\<close> or more, that is of exponent 1024 or more, overflows
  to an infinity.
\<close>

function exp_up :: "rat \<Rightarrow> int" where
  "exp_up y = (if y < 2 then 0 else 1 + exp_up (y / 2))"
  by pat_completeness auto
termination
proof (relation "measure (\<lambda>y. nat \<lfloor>y\<rfloor>)")
  show "wf (measure (\<lambda>y::rat. nat \<lfloor>y\<rfloor>))" by simp
next
  fix y :: rat
  assume "\<not> y < 2"
  then have "y / 2 \<le> y - 1" by simp
  then have "\<lfloor>y / 2\<rfloor> \<le> \<lfloor>y - 1\<rfloor>" by (rule floor_mono)
  moreover have "1 \<le> \<lfloor>y\<rfloor>" using \<open>\<not> y < 2\<close> by (simp add: le_floor_iff)
  ultimately show "(y / 2, y) \<in> measure (\<lambda>y. nat \<lfloor>y\<rfloor>)" by simp
qed

function exp_down :: "rat \<Rightarrow> int" where
  "exp_down y = (if y \<le> 0 \<or> 1 \<le> y then 0 else exp_down (y * 2) - 1)"
  by pat_completeness auto
termination
proof (relation "measure (\<lambda>y. nat \<lfloor>1 / y\<rfloor>)")
  show "wf (measure (\<lambda>y::rat. nat \<lfloor>1 / y\<rfloor>))" by simp
next
  fix y :: rat
  assume "\<not> (y \<le> 0 \<or> 1 \<le> y)"
  then have y: "0 < y" "y < 1" by simp_all
  then have z: "1 < 1 / y" by simp
  have m: "1 \<le> \<lfloor>1 / y\<rfloor>" using z by (simp add: le_floor_iff)
  have "1 / y < of_int \<lfloor>1 / y\<rfloor> + 1" by linarith
  then have "1 / (y * 2) < (of_int \<lfloor>1 / y\<rfloor> + 1) / 2" by simp
  also have "\<dots> \<le> of_int \<lfloor>1 / y\<rfloor>" using m by simp
  finally have "\<lfloor>1 / (y * 2)\<rfloor> < \<lfloor>1 / y\<rfloor>" by (simp only: floor_less_iff)
  then show "(y * 2, y) \<in> measure (\<lambda>y. nat \<lfloor>1 / y\<rfloor>)"
    using m by simp
qed

declare exp_up.simps [simp del] exp_down.simps [simp del]

definition pow2 :: "int \<Rightarrow> rat" where
  "pow2 e = (if 0 \<le> e then 2 ^ nat e else 1 / 2 ^ nat (- e))"

definition exponent :: "rat \<Rightarrow> int" where
  "exponent y = (if 1 \<le> y then exp_up y else exp_down y)"

definition ulp :: "rat \<Rightarrow> rat" where
  "ulp y = pow2 (max (exponent \<bar>y\<bar>) (- 1022) - 52)"

definition fl_round :: "rat \<Rightarrow> rat" where
  "fl_round y = of_int (py_round (y / ulp y)) * ulp y"

definition to_float :: "rat \<Rightarrow> pyfloat" where
  "to_float y =
     (let r = fl_round y
      in if 1024 \<le> exponent \<bar>r\<bar> then (if 0 < r then PosInf else NegInf) else Finite r)"

text \<open>A rational number is the value of a double when rounding leaves it as it is.\<close>

definition is_double :: "rat \<Rightarrow> bool" where
  "is_double x = (fl_round x = x \<and> exponent \<bar>x\<bar> < 1024)"

record timedelta =
  days :: int
  seconds :: int
  microseconds :: int

text \<open>
  \<^verbatim>\<open>datetime.timedelta(seconds=x)\<close> for a float \<open>x\<close>: \<^verbatim>\<open>math.modf\<close> splits \<open>x\<close>,
  \<^verbatim>\<open>int\<close> of the whole part raises on a non-finite value, the fraction is multiplied
  by \<^verbatim>\<open>1e6\<close> in doubles and the product rounded to whole microseconds, the three
  fields are normalised with \<^verbatim>\<open>divmod\<close>, and more than 999999999 days in either
  direction raise \<^verbatim>\<open>OverflowError\<close>.
\<close>

definition timedelta_of_seconds :: "pyfloat \<Rightarrow> pyerror + timedelta" where
  "timedelta_of_seconds x =
     (case x of
        NaN \<Rightarrow> Inl ValueError
      | PosInf \<Rightarrow> Inl OverflowError
      | NegInf \<Rightarrow> Inl OverflowError
      | Finite r \<Rightarrow>
          (let whole = py_int r;
               secondsfrac = r - of_int whole;
               d = whole div 86400;
               s = whole mod 86400;
               us = py_round (fl_round (secondsfrac * 1000000));
               s = s + us div 1000000;
               us = us mod 1000000;
               d = d + s div 86400;
               s = s mod 86400
           in if \<bar>d\<bar> > 999999999 then Inl OverflowError
              else Inr \<lparr>days = d, seconds = s, microseconds = us\<rparr>))"

text \<open>
  \<^verbatim>\<open>td.total_seconds()\<close>: the true division of the count of microseconds by
  \<^verbatim>\<open>10**6\<close>, rounded to a double.
\<close>

definition total_seconds :: "timedelta \<Rightarrow> rat" where
  "total_seconds td =
     fl_round (of_int ((days td * 86400 + seconds td) * 1000000 + microseconds td) / 1000000)"

definition format_timestamp :: "pyfloat \<Rightarrow> pystr \<Rightarrow> pyerror + pystr" where
  "format_timestamp secs_in fmt =
     (case timedelta_of_seconds secs_in of
        Inl e \<Rightarrow> Inl e
      | Inr td \<Rightarrow>
          (let total = py_int (total_seconds td);
               hours = total div 3600;
               minutes = (total mod 3600) div 60;
               secs = total mod 60;
               millis = py_int (fl_round (of_int (microseconds td) / 1000))
           in if fmt = py ''vtt''
              then Inr (format_int_zero 2 hours @ py '':'' @ format_int_zero 2 minutes
                        @ py '':'' @ format_int_zero 2 secs @ py ''.'' @ format_int_zero 3 millis)
              else Inr (format_int_zero 2 hours @ py '':'' @ format_int_zero 2 minutes
                        @ py '':'' @ format_int_zero 2 secs @ py '','' @ format_int_zero 3 millis)))"

text \<open>
  Float subtraction, rounded to a double, and the comparison \<^verbatim>\<open>gap > 1.0\<close> (false
  for NaN).
\<close>

fun float_sub :: "pyfloat \<Rightarrow> pyfloat \<Rightarrow> pyfloat" where
  "float_sub NaN y = NaN"
| "float_sub x NaN = NaN"
| "float_sub (Finite a) (Finite b) = to_float (a - b)"
| "float_sub (Finite a) PosInf = NegInf"
| "float_sub (Finite a) NegInf = PosInf"
| "float_sub PosInf PosInf = NaN"
| "float_sub PosInf y = PosInf"
| "float_sub NegInf NegInf = NaN"
| "float_sub NegInf y = NegInf"

fun float_gt :: "pyfloat \<Rightarrow> rat \<Rightarrow> bool" where
  "float_gt (Finite a) b = (b < a)"
| "float_gt PosInf b = True"
| "float_gt NegInf b = False"
| "float_gt NaN b = False"

subsection \<open>The profanity filter\<close>

definition bad_words :: "pystr list" where
  "bad_words = [py ''fuck'', py ''shit'', py ''bitch'', py ''asshole'', py ''cunt'', py ''dick'']"

text \<open>
  \<open>ci_match p c\<close>: the text character \<open>c\<close> matches the pattern letter \<open>p\<close> under
  \<^verbatim>\<open>re.IGNORECASE\<close>. For a lower-case ASCII letter \<open>p\<close> these are \<open>p\<close>, its upper-case
  form and, by the Unicode case tables of \<^verbatim>\<open>re\<close>, the dotted capital and the dotless
  small i (304, 305) for \<open>i\<close>, the Kelvin sign (8490) for \<open>k\<close> and the long s (383)
  for \<open>s\<close>.
\<close>

definition ci_match :: "nat \<Rightarrow> nat \<Rightarrow> bool" where
  "ci_match p c =
     (c = p \<or> (97 \<le> p \<and> p \<le> 122 \<and> c + 32 = p)
      \<or> (p = 105 \<and> (c = 304 \<or> c = 305))
      \<or> (p = 107 \<and> c = 8490)
      \<or> (p = 115 \<and> c = 383))"

text \<open>The pattern matches at the start of the text.\<close>

fun ci_prefix :: "pystr \<Rightarrow> pystr \<Rightarrow> bool" where
  "ci_prefix [] t = True"
| "ci_prefix (p # ps) [] = False"
| "ci_prefix (p # ps) (c # cs) = (ci_match p c \<and> ci_prefix ps cs)"

text \<open>
  \<^verbatim>\<open>re.compile(re.escape(word), re.IGNORECASE).sub("*" * len(word), text)\<close>: the text is
  scanned from the left; at a match the replacement is emitted and the scan resumes
  after the match, otherwise one character is copied.
\<close>

function mask_word :: "pystr \<Rightarrow> pystr \<Rightarrow> pystr" where
  "mask_word word [] = []"
| "mask_word word (c # cs) =
     (if word \<noteq> [] \<and> ci_prefix word (c # cs)
      then replicate (length word) 42 @ mask_word word (drop (length word) (c # cs))
      else c # mask_word word cs)"
  by pat_completeness auto
termination
  by (relation "measure (\<lambda>(word, text). length text)") auto

definition apply_profanity_filter :: "pystr \<Rightarrow> pystr" where
  "apply_profanity_filter text = foldl (\<lambda>text word. mask_word word text) text bad_words"

subsection \<open>The transcript\<close>

text \<open>
  A word is the dictionary with the keys \<^verbatim>\<open>word\<close>, \<^verbatim>\<open>start\<close> and \<^verbatim>\<open>end\<close>; a
  segment has \<^verbatim>\<open>text\<close>, \<^verbatim>\<open>start\<close>, \<^verbatim>\<open>end\<close> and may have the key \<^verbatim>\<open>words\<close>
  (\<open>None\<close> when the key is absent). \<open>segments\<close> is \<^verbatim>\<open>result["segments"]\<close>.
\<close>

record word =
  w_word :: pystr
  w_start :: pyfloat
  w_end :: pyfloat

record segment =
  seg_text :: pystr
  seg_start :: pyfloat
  seg_end :: pyfloat
  seg_words :: "word list option"

record line =
  line_text :: pystr
  line_start :: pyfloat
  line_end :: pyfloat

record block =
  block_start :: pyfloat
  block_end :: pyfloat
  block_text :: pystr

text \<open>Lines 281 to 283: the words of all segments that have the key \<^verbatim>\<open>words\<close>.\<close>

definition all_words :: "segment list \<Rightarrow> word list" where
  "all_words segments =
     foldl (\<lambda>acc segment. case seg_words segment of None \<Rightarrow> acc | Some ws \<Rightarrow> acc @ ws)
       [] segments"

subsection \<open>The plain-text path\<close>

definition segment_text :: "bool \<Rightarrow> segment \<Rightarrow> pystr" where
  "segment_text use_profanity segment =
     (let text = strip (seg_text segment)
      in if use_profanity then apply_profanity_filter text else text)"

text \<open>The test \<^verbatim>\<open>segments[i+1]["start"] - segment["end"] > 1.0\<close>.\<close>

definition gap_exceeds :: "segment \<Rightarrow> segment \<Rightarrow> bool" where
  "gap_exceeds segment next_segment =
     float_gt (float_sub (seg_start next_segment) (seg_end segment)) 1"

text \<open>
  The loop of lines 291 to 304 from index \<open>i\<close> on, with \<open>output_str\<close> as accumulator.
  \<open>segments ! (i + 1)\<close> is read only under the guard \<^verbatim>\<open>i < len(segments) - 1\<close>.
\<close>

function txt_loop :: "bool \<Rightarrow> segment list \<Rightarrow> nat \<Rightarrow> pystr \<Rightarrow> pystr" where
  "txt_loop use_profanity segments i output_str =
     (if i < length segments
      then (let segment = segments ! i;
                output_str = output_str @ segment_text use_profanity segment;
                output_str =
                  (if int i < int (length segments) - 1
                   then (if gap_exceeds segment (segments ! (i + 1))
                         then output_str @ [10, 10]
                         else output_str @ [32])
                   else output_str)
            in txt_loop use_profanity segments (i + 1) output_str)
      else output_str)"
  by pat_completeness auto
termination
  by (relation "measure (\<lambda>(p, segments, i, out). length segments - i)") auto

declare txt_loop.simps [simp del]

subsection \<open>The caption layouts\<close>

text \<open>The per-word layout (\<^verbatim>\<open>preset_mode == "tiktok"\<close>): one block for each word.\<close>

definition word_block :: "word \<Rightarrow> block" where
  "word_block w = \<lparr>block_start = w_start w, block_end = w_end w, block_text = strip (w_word w)\<rparr>"

text \<open>
  The packed layout. The four variables the closures \<^verbatim>\<open>flush_line\<close> and
  \<^verbatim>\<open>flush_block\<close> share are the fields of the state.
\<close>

record pack_state =
  final_blocks :: "block list"
  current_block_lines :: "line list"
  current_line_words :: "word list"
  current_line_len :: int

definition pack_init :: pack_state where
  "pack_init = \<lparr>final_blocks = [], current_block_lines = [], current_line_words = [],
     current_line_len = 0\<rparr>"

definition line_of_words :: "word list \<Rightarrow> line" where
  "line_of_words ws = \<lparr>line_text = strip (concat (map w_word ws)),
     line_start = w_start (hd ws), line_end = w_end (last ws)\<rparr>"

definition block_of_lines :: "line list \<Rightarrow> block" where
  "block_of_lines ls = \<lparr>block_start = line_start (hd ls), block_end = line_end (last ls),
     block_text = str_join [10] (map line_text ls)\<rparr>"

definition flush_line :: "pack_state \<Rightarrow> pack_state" where
  "flush_line st =
     (if current_line_words st \<noteq> []
      then st\<lparr>current_block_lines :=
                current_block_lines st @ [line_of_words (current_line_words st)],
              current_line_words := [], current_line_len := 0\<rparr>
      else st)"

definition flush_block :: "pack_state \<Rightarrow> pack_state" where
  "flush_block st =
     (if current_block_lines st \<noteq> []
      then st\<lparr>final_blocks := final_blocks st @ [block_of_lines (current_block_lines st)],
              current_block_lines := []\<rparr>
      else st)"

text \<open>Lines 335 to 338: the state in which the word is then appended.\<close>

definition make_room :: "int \<Rightarrow> int \<Rightarrow> pack_state \<Rightarrow> word \<Rightarrow> pack_state" where
  "make_room max_chars max_lines st w_obj =
     (let word_len = int (length (w_word w_obj))
      in if current_line_len st + word_len > max_chars \<and> current_line_len st > 0
         then (let st = flush_line st
               in if int (length (current_block_lines st)) \<ge> max_lines
                  then flush_block st else st)
         else st)"

text \<open>Line 339.\<close>

definition append_word :: "pack_state \<Rightarrow> word \<Rightarrow> pack_state" where
  "append_word st w_obj =
     st\<lparr>current_line_words := current_line_words st @ [w_obj],
        current_line_len := current_line_len st + int (length (w_word w_obj))\<rparr>"

definition pack_word :: "int \<Rightarrow> int \<Rightarrow> pack_state \<Rightarrow> word \<Rightarrow> pack_state" where
  "pack_word max_chars max_lines st w_obj =
     append_word (make_room max_chars max_lines st w_obj) w_obj"

definition pack_loop :: "int \<Rightarrow> int \<Rightarrow> word list \<Rightarrow> pack_state" where
  "pack_loop max_chars max_lines ws = foldl (pack_word max_chars max_lines) pack_init ws"

definition packed_blocks :: "int \<Rightarrow> int \<Rightarrow> word list \<Rightarrow> block list" where
  "packed_blocks max_chars max_lines ws =
     final_blocks (flush_block (flush_line (pack_loop max_chars max_lines ws)))"

definition layout_blocks :: "pystr \<Rightarrow> int \<Rightarrow> int \<Rightarrow> word list \<Rightarrow> block list" where
  "layout_blocks preset_mode max_chars max_lines ws =
     (if preset_mode = py ''tiktok'' then map word_block ws
      else packed_blocks max_chars max_lines ws)"

subsection \<open>Rendering\<close>

text \<open>Lines 346 to 354: the loop over the blocks, with the output and the counter.\<close>

fun render_loop ::
  "pystr \<Rightarrow> bool \<Rightarrow> block list \<Rightarrow> pystr \<Rightarrow> nat \<Rightarrow> pyerror + pystr" where
  "render_loop format_type use_profanity [] output_str counter = Inr output_str"
| "render_loop format_type use_profanity (b # bs) output_str counter =
     (let text = block_text b;
          text = (if use_profanity then apply_profanity_filter text else text)
      in case format_timestamp (block_start b) format_type of
           Inl e \<Rightarrow> Inl e
         | Inr s_ts \<Rightarrow>
             (case format_timestamp (block_end b) format_type of
                Inl e \<Rightarrow> Inl e
              | Inr e_ts \<Rightarrow>
                  render_loop format_type use_profanity bs
                    (output_str @ str_nat counter @ [10] @ s_ts @ py '' --> '' @ e_ts @ [10]
                       @ text @ [10, 10])
                    (counter + 1)))"

definition render_blocks :: "pystr \<Rightarrow> bool \<Rightarrow> block list \<Rightarrow> pyerror + pystr" where
  "render_blocks format_type use_profanity blocks =
     render_loop format_type use_profanity blocks
       (if format_type = py ''vtt'' then py ''WEBVTT'' @ [10, 10] else []) 1"

definition generate_output ::
  "segment list \<Rightarrow> pystr \<Rightarrow> pystr \<Rightarrow> int \<Rightarrow> int \<Rightarrow> bool \<Rightarrow> pyerror + pystr \<times> nat" where
  "generate_output segments format_type preset_mode max_chars max_lines use_profanity =
     (let words = all_words segments
      in if words = [] then Inr ([], 0)
         else if format_type = py ''txt''
         then Inr (txt_loop use_profanity segments 0 [], length words)
         else (case render_blocks format_type use_profanity
                      (layout_blocks preset_mode max_chars max_lines words) of
                 Inl e \<Rightarrow> Inl e
               | Inr output_str \<Rightarrow> Inr (output_str, length words)))"

subsection \<open>The packed layout with its structure kept\<close>

text \<open>
  The same loop, run on a state that keeps every line as the list of its words and
  every block as the list of its lines instead of turning them into dictionaries at
  once. \<open>pack_abs\<close> maps such a state to the state of the code; the loops commute with
  it (lemma \<open>pack_loop_layout\<close>), so \<open>packed_layout\<close> tells which words the code put on
  which line of which block.
\<close>

record layout_state =
  done_blocks :: "word list list list"
  open_block :: "word list list"
  open_line :: "word list"
  open_len :: int

definition layout_init :: layout_state where
  "layout_init = \<lparr>done_blocks = [], open_block = [], open_line = [], open_len = 0\<rparr>"

definition layout_flush_line :: "layout_state \<Rightarrow> layout_state" where
  "layout_flush_line g =
     (if open_line g \<noteq> []
      then g\<lparr>open_block := open_block g @ [open_line g], open_line := [], open_len := 0\<rparr>
      else g)"

definition layout_flush_block :: "layout_state \<Rightarrow> layout_state" where
  "layout_flush_block g =
     (if open_block g \<noteq> []
      then g\<lparr>done_blocks := done_blocks g @ [open_block g], open_block := []\<rparr>
      else g)"

definition layout_make_room :: "int \<Rightarrow> int \<Rightarrow> layout_state \<Rightarrow> word \<Rightarrow> layout_state" where
  "layout_make_room max_chars max_lines g w_obj =
     (let word_len = int (length (w_word w_obj))
      in if open_len g + word_len > max_chars \<and> open_len g > 0
         then (let g = layout_flush_line g
               in if int (length (open_block g)) \<ge> max_lines
                  then layout_flush_block g else g)
         else g)"

definition layout_append :: "layout_state \<Rightarrow> word \<Rightarrow> layout_state" where
  "layout_append g w_obj =
     g\<lparr>open_line := open_line g @ [w_obj],
       open_len := open_len g + int (length (w_word w_obj))\<rparr>"

definition layout_word :: "int \<Rightarrow> int \<Rightarrow> layout_state \<Rightarrow> word \<Rightarrow> layout_state" where
  "layout_word max_chars max_lines g w_obj =
     layout_append (layout_make_room max_chars max_lines g w_obj) w_obj"

definition layout_loop :: "int \<Rightarrow> int \<Rightarrow> word list \<Rightarrow> layout_state" where
  "layout_loop max_chars max_lines ws = foldl (layout_word max_chars max_lines) layout_init ws"

definition packed_layout :: "int \<Rightarrow> int \<Rightarrow> word list \<Rightarrow> word list list list" where
  "packed_layout max_chars max_lines ws =
     done_blocks (layout_flush_block (layout_flush_line (layout_loop max_chars max_lines ws)))"

definition block_of_layout :: "word list list \<Rightarrow> block" where
  "block_of_layout ls = block_of_lines (map line_of_words ls)"

definition pack_abs :: "layout_state \<Rightarrow> pack_state" where
  "pack_abs g = \<lparr>final_blocks = map block_of_layout (done_blocks g),
     current_block_lines = map line_of_words (open_block g),
     current_line_words = open_line g, current_line_len = open_len g\<rparr>"

text \<open>The accumulated character length of a list of words.\<close>

definition text_len :: "word list \<Rightarrow> int" where
  "text_len ws = (\<Sum>w\<leftarrow>ws. int (length (w_word w)))"

subsection \<open>Reference definitions\<close>

text \<open>
  The caption output as the specification describes it: the header for \<^verbatim>\<open>vtt\<close> only,
  then one entry for each block, numbered from 1.
\<close>

definition timestamps_ok :: "pystr \<Rightarrow> block \<Rightarrow> bool" where
  "timestamps_ok fmt b =
     (\<not> isl (format_timestamp (block_start b) fmt) \<and> \<not> isl (format_timestamp (block_end b) fmt))"

definition caption_entry :: "pystr \<Rightarrow> bool \<Rightarrow> nat \<Rightarrow> block \<Rightarrow> pystr" where
  "caption_entry fmt redact n b =
     str_nat n @ [10]
     @ projr (format_timestamp (block_start b) fmt) @ py '' --> ''
     @ projr (format_timestamp (block_end b) fmt) @ [10]
     @ (if redact then apply_profanity_filter (block_text b) else block_text b) @ [10, 10]"

definition caption_entries :: "pystr \<Rightarrow> bool \<Rightarrow> nat \<Rightarrow> block list \<Rightarrow> pystr" where
  "caption_entries fmt redact n bs =
     concat (map (\<lambda>(i, b). caption_entry fmt redact i b) (enumerate n bs))"


text \<open>
  A clock string from whole seconds and milliseconds, and the two readings of a seconds
  value: truncated to whole milliseconds, as the specification words it, and through
  the count of microseconds that \<^verbatim>\<open>datetime.timedelta\<close> holds for it (\<open>timedelta_us\<close>).
\<close>

definition clock_string :: "pystr \<Rightarrow> int \<Rightarrow> int \<Rightarrow> pystr" where
  "clock_string fmt whole_seconds millis =
     format_int_zero 2 (whole_seconds div 3600) @ py '':''
     @ format_int_zero 2 (whole_seconds mod 3600 div 60) @ py '':''
     @ format_int_zero 2 (whole_seconds mod 60)
     @ (if fmt = py ''vtt'' then py ''.'' else py '','')
     @ format_int_zero 3 millis"

definition truncated_clock :: "rat \<Rightarrow> pystr \<Rightarrow> pystr" where
  "truncated_clock r fmt = clock_string fmt \<lfloor>r\<rfloor> (\<lfloor>r * 1000\<rfloor> mod 1000)"

definition timedelta_us :: "rat \<Rightarrow> int" where
  "timedelta_us r =
     py_int r * 1000000 + py_round (fl_round ((r - of_int (py_int r)) * 1000000))"

definition rounded_clock :: "rat \<Rightarrow> pystr \<Rightarrow> pystr" where
  "rounded_clock r fmt =
     clock_string fmt (timedelta_us r div 1000000) (timedelta_us r mod 1000000 div 1000)"

text \<open>
  Occurrences of the listed words: \<open>occurs_at w t n\<close> when \<open>w\<close> matches \<open>t\<close> at position
  \<open>n\<close>, ignoring case; \<open>covered t i\<close> when position \<open>i\<close> of \<open>t\<close> lies inside an occurrence
  of a listed word.
\<close>

definition occurs_at :: "pystr \<Rightarrow> pystr \<Rightarrow> nat \<Rightarrow> bool" where
  "occurs_at w t n = ci_prefix w (drop n t)"

definition covered :: "pystr \<Rightarrow> nat \<Rightarrow> bool" where
  "covered t i =
     list_ex (\<lambda>w. list_ex (\<lambda>n. i < n + length w \<and> occurs_at w t n) [0..<Suc i]) bad_words"

subsection \<open>Example transcripts\<close>

definition silent_transcript :: "segment list" where
  "silent_transcript =
     [\<lparr>seg_text = py ''some untimed text'', seg_start = Finite 0, seg_end = Finite 2,
        seg_words = None\<rparr>,
      \<lparr>seg_text = py ''more'', seg_start = Finite 4, seg_end = Finite 5, seg_words = Some []\<rparr>]"


definition hi_there :: "segment list" where
  "hi_there =
     [\<lparr>seg_text = py ''Hi there'', seg_start = Finite 0, seg_end = Finite 1,
        seg_words = Some [\<lparr>w_word = py ''Hi'', w_start = Finite 0, w_end = Finite (1 / 2)\<rparr>,
                          \<lparr>w_word = py ''there'', w_start = Finite (1 / 2), w_end = Finite 1\<rparr>]\<rparr>]"

subsection \<open>Invariants of the packing loop\<close>

text \<open>
  \<open>appends_ok max_chars acc ws\<close> replays the appends of the words \<open>ws\<close> to a line that
  holds \<open>acc\<close> characters: at each append the accumulated length is zero or the
  accumulated length plus the length of the word is at most \<open>max_chars\<close>.
\<close>
fun appends_ok :: "int \<Rightarrow> int \<Rightarrow> word list \<Rightarrow> bool" where
  "appends_ok max_chars acc [] = True"
| "appends_ok max_chars acc (w # ws) =
     ((acc = 0 \<or> acc + int (length (w_word w)) \<le> max_chars)
      \<and> appends_ok max_chars (acc + int (length (w_word w))) ws)"

text \<open>The invariants of the loop on the state that keeps the structure.\<close>

definition lines_ok :: "int \<Rightarrow> layout_state \<Rightarrow> bool" where
  "lines_ok max_chars g =
     (open_len g = text_len (open_line g) \<and> appends_ok max_chars 0 (open_line g)
      \<and> (\<forall>l\<in>set (open_block g). l \<noteq> [] \<and> appends_ok max_chars 0 l)
      \<and> (\<forall>b\<in>set (done_blocks g). \<forall>l\<in>set b. l \<noteq> [] \<and> appends_ok max_chars 0 l))"

definition blocks_ok :: "int \<Rightarrow> layout_state \<Rightarrow> bool" where
  "blocks_ok max_lines g =
     (int (length (open_block g)) < max_lines
      \<and> (\<forall>b\<in>set (done_blocks g). int (length b) = max_lines))"

definition words_of :: "layout_state \<Rightarrow> word list" where
  "words_of g = concat (concat (done_blocks g)) @ concat (open_block g) @ open_line g"

subsection \<open>Example word lists\<close>

definition seven_words :: "word list" where
  "seven_words =
     [\<lparr>w_word = py '' a'', w_start = Finite 0, w_end = Finite 1\<rparr>,
      \<lparr>w_word = py '' bb'', w_start = Finite 1, w_end = Finite 2\<rparr>,
      \<lparr>w_word = py '' ccc'', w_start = Finite 2, w_end = Finite 3\<rparr>,
      \<lparr>w_word = py '' dddddddddd'', w_start = Finite 3, w_end = Finite 4\<rparr>,
      \<lparr>w_word = py '' e'', w_start = Finite 4, w_end = Finite 5\<rparr>,
      \<lparr>w_word = py '' f'', w_start = Finite 5, w_end = Finite 6\<rparr>,
      \<lparr>w_word = py '' g'', w_start = Finite 6, w_end = Finite 7\<rparr>]"

definition empty_word :: word where
  "empty_word = \<lparr>w_word = [], w_start = Finite 0, w_end = Finite (1 / 2)\<rparr>"

definition long_word :: word where
  "long_word = \<lparr>w_word = py ''abcdef'', w_start = Finite (1 / 2), w_end = Finite 1\<rparr>"

subsection \<open>Masked texts\<close>

text \<open>
  \<open>star_or_same t t'\<close>: the text \<open>t'\<close> has the length of \<open>t\<close> and at each position the
  character of \<open>t\<close> or the mask character. A word is \<open>star_free\<close> when it is not empty
  and none of its letters matches the mask character.
\<close>

abbreviation star_or_same :: "pystr \<Rightarrow> pystr \<Rightarrow> bool" where
  "star_or_same t t' \<equiv> list_all2 (\<lambda>a b. b = a \<or> b = 42) t t'"

definition star_free :: "pystr \<Rightarrow> bool" where
  "star_free w = (w \<noteq> [] \<and> (\<forall>p\<in>set w. \<not> ci_match p 42))"

subsection \<open>Overlaps of listed words\<close>

text \<open>
  \<open>agree v w\<close>: the two words have the same letter at every position both have.
  \<open>no_overlap ws\<close>: no two words of \<open>ws\<close> can match one text at overlapping places;
  for words in lower-case letters this is the case when a word, shifted by less than
  its length, agrees with a word only if the shift is zero and the words are one.
\<close>

fun agree :: "pystr \<Rightarrow> pystr \<Rightarrow> bool" where
  "agree (p # ps) (q # qs) = (p = q \<and> agree ps qs)"
| "agree ps qs = True"

definition lower_word :: "pystr \<Rightarrow> bool" where
  "lower_word w = list_all (\<lambda>p. 97 \<le> p \<and> p \<le> 122) w"

definition no_overlap :: "pystr list \<Rightarrow> bool" where
  "no_overlap ws =
     list_all (\<lambda>v. list_all (\<lambda>w. list_all (\<lambda>d. agree (drop d v) w \<longrightarrow> d = 0 \<and> v = w)
                                   [0..<length v]) ws) ws"

text \<open>
  A seconds value that \<^verbatim>\<open>datetime.timedelta\<close> accepts, and a transcript whose only
  word starts at NaN.
\<close>

definition formattable :: "pyfloat \<Rightarrow> bool" where
  "formattable x = (\<not> isl (timedelta_of_seconds x))"

definition nan_transcript :: "segment list" where
  "nan_transcript =
     [\<lparr>seg_text = py '' oh'', seg_start = Finite 0, seg_end = Finite 1,
        seg_words = Some [\<lparr>w_word = py '' oh'', w_start = NaN, w_end = Finite 1\<rparr>]\<rparr>]"

section \<open>Properties\<close>

subsection \<open>Evaluation lemmas\<close>

lemma isspace_iff:
  "isspace c \<longleftrightarrow> c \<in> {9, 10, 11, 12, 13, 28, 29, 30, 31, 32, 133, 160, 5760,
     8192, 8193, 8194, 8195, 8196, 8197, 8198, 8199, 8200, 8201, 8202,
     8232, 8233, 8239, 8287, 12288}"
  by (simp add: isspace_def whitespace_def)

lemmas pack_defs = layout_blocks_def packed_blocks_def pack_loop_def pack_word_def
  make_room_def append_word_def flush_line_def flush_block_def pack_init_def
  line_of_words_def block_of_lines_def word_block_def

lemma py_neq [simp]:
  "py ''srt'' \<noteq> py ''txt''" "py ''vtt'' \<noteq> py ''txt''" "py ''srt'' \<noteq> py ''vtt''"
  by (simp_all add: py_def)

lemma str_nat_digit: "n < 10 \<Longrightarrow> str_nat n = [48 + n]"
  by (simp add: str_nat.simps)

lemma srt_stamp_0: "format_timestamp (Finite 0) (py ''srt'') = Inr (py ''00:00:00,000'')"
  by code_simp

lemma srt_stamp_half: "format_timestamp (Finite (1 / 2)) (py ''srt'') = Inr (py ''00:00:00,500'')"
  by code_simp

lemma srt_stamp_1: "format_timestamp (Finite 1) (py ''srt'') = Inr (py ''00:00:01,000'')"
  by code_simp

subsection \<open>Transcripts without timed words\<close>

lemma foldl_all_words:
  "foldl (\<lambda>acc segment. case seg_words segment of None \<Rightarrow> acc | Some ws \<Rightarrow> acc @ ws) acc segs
     = acc @ concat (map (\<lambda>s. case seg_words s of None \<Rightarrow> [] | Some ws \<Rightarrow> ws) segs)"
  by (induction segs arbitrary: acc) (simp_all split: option.split)

lemma all_words_concat:
  "all_words segs = concat (map (\<lambda>s. case seg_words s of None \<Rightarrow> [] | Some ws \<Rightarrow> ws) segs)"
  by (simp add: all_words_def foldl_all_words)

lemma all_words_empty_iff:
  "all_words segs = [] \<longleftrightarrow> (\<forall>s\<in>set segs. seg_words s = None \<or> seg_words s = Some [])"
proof -
  have *: "\<And>s. ((case seg_words s of None \<Rightarrow> [] | Some ws \<Rightarrow> ws) = [])
          = (seg_words s = None \<or> seg_words s = Some [])"
    by (simp split: option.split)
  show ?thesis by (simp add: all_words_concat *)
qed

text \<open>
  C5. A transcript in which no segment carries a non-empty word list yields the empty
  string and the count 0, whatever the format, the layout and the options are and
  whatever text the segments hold.
\<close>

theorem generate_output_no_timed_words:
  assumes "\<forall>s\<in>set segments. seg_words s = None \<or> seg_words s = Some []"
  shows "generate_output segments format_type preset_mode max_chars max_lines use_profanity
           = Inr ([], 0)"
  using assms by (simp add: generate_output_def all_words_empty_iff)

theorem generate_output_no_timed_words_witness:
  "generate_output silent_transcript (py ''txt'') (py ''standard'') 42 2 True = Inr ([], 0)
   \<and> generate_output silent_transcript (py ''vtt'') (py ''tiktok'') 42 2 False = Inr ([], 0)"
  using generate_output_no_timed_words [of silent_transcript]
  by (simp add: silent_transcript_def)

subsection \<open>The plain-text path\<close>






subsection \<open>Rendering of caption blocks\<close>

lemma render_loop_entries:
  "\<forall>b\<in>set bs. timestamps_ok fmt b \<Longrightarrow>
     render_loop fmt redact bs out n = Inr (out @ caption_entries fmt redact n bs)"
proof (induction bs arbitrary: out n)
  case Nil
  then show ?case by (simp add: caption_entries_def)
next
  case (Cons b bs)
  from Cons.prems obtain s e where
    s: "format_timestamp (block_start b) fmt = Inr s" and
    e: "format_timestamp (block_end b) fmt = Inr e"
    by (cases "format_timestamp (block_start b) fmt"; cases "format_timestamp (block_end b) fmt")
       (simp_all add: timestamps_ok_def)
  have rest: "\<forall>b\<in>set bs. timestamps_ok fmt b" using Cons.prems by simp
  have ent: "caption_entries fmt redact n (b # bs)
               = caption_entry fmt redact n b @ caption_entries fmt redact (Suc n) bs"
    by (simp add: caption_entries_def)
  show ?case
    by (simp add: Cons.IH [OF rest] ent s e caption_entry_def Let_def)
qed

lemma hi_there_words:
  "all_words hi_there = [\<lparr>w_word = py ''Hi'', w_start = Finite 0, w_end = Finite (1 / 2)\<rparr>,
                          \<lparr>w_word = py ''there'', w_start = Finite (1 / 2), w_end = Finite 1\<rparr>]"
  by (simp add: all_words_def hi_there_def)

lemma hi_there_blocks:
  "layout_blocks (py ''standard'') 10 2 (all_words hi_there)
     = [\<lparr>block_start = Finite 0, block_end = Finite 1, block_text = py ''Hithere''\<rparr>]"
  by (simp add: hi_there_words pack_defs strip_def isspace_iff py_def)

lemma hi_there_output:
  "generate_output hi_there (py ''srt'') (py ''standard'') 10 2 False
     = Inr (py ''1'' @ [10] @ py ''00:00:00,000 --> 00:00:01,000'' @ [10] @ py ''Hithere''
            @ [10, 10], 2)"
proof -
  have "render_blocks (py ''srt'') False
          [\<lparr>block_start = Finite 0, block_end = Finite 1, block_text = py ''Hithere''\<rparr>]
        = Inr (py ''1'' @ [10] @ py ''00:00:00,000 --> 00:00:01,000'' @ [10] @ py ''Hithere''
            @ [10, 10])"
    by (simp add: render_blocks_def srt_stamp_0 srt_stamp_1 str_nat_digit) (simp add: py_def)
  moreover have "all_words hi_there \<noteq> []" "length (all_words hi_there) = 2"
    by (simp_all add: hi_there_words)
  ultimately show ?thesis
    by (simp add: generate_output_def Let_def hi_there_blocks)
qed

text \<open>
  C3 (amended). For a transcript with timed words, either caption dialect and blocks
  whose timestamps can be formatted, the output is the header \<^verbatim>\<open>WEBVTT\<close> and a blank
  line exactly when the format is \<^verbatim>\<open>vtt\<close>, followed for each block in order by its
  entry: the counter (from 1, one more for each block), a line feed, the start stamp,
  the separator \<^verbatim>\<open> --> \<close>, the end stamp, a line feed, the (redacted, if enabled) text
  and a blank line. The words \<^verbatim>\<open>Hi\<close> and \<^verbatim>\<open>there\<close> of the example are joined with
  nothing between them: the text of the block is \<^verbatim>\<open>Hithere\<close>.
\<close>

theorem caption_rendering:
  assumes "all_words segments \<noteq> []"
    and "fmt = py ''srt'' \<or> fmt = py ''vtt''"
    and "\<forall>b\<in>set (layout_blocks preset_mode max_chars max_lines (all_words segments)).
           timestamps_ok fmt b"
  shows "generate_output segments fmt preset_mode max_chars max_lines redact
           = Inr ((if fmt = py ''vtt'' then py ''WEBVTT'' @ [10, 10] else [])
                  @ caption_entries fmt redact 1
                      (layout_blocks preset_mode max_chars max_lines (all_words segments)),
                  length (all_words segments))
         \<and> generate_output hi_there (py ''srt'') (py ''standard'') 10 2 False
           = Inr (py ''1'' @ [10] @ py ''00:00:00,000 --> 00:00:01,000'' @ [10]
                  @ py ''Hithere'' @ [10, 10], 2)"
proof -
  have "fmt \<noteq> py ''txt''" using assms(2) by (auto simp: py_def)
  then have "generate_output segments fmt preset_mode max_chars max_lines redact
           = Inr ((if fmt = py ''vtt'' then py ''WEBVTT'' @ [10, 10] else [])
                  @ caption_entries fmt redact 1
                      (layout_blocks preset_mode max_chars max_lines (all_words segments)),
                  length (all_words segments))"
    using assms(1) render_loop_entries [OF assms(3)]
    by (simp add: generate_output_def render_blocks_def Let_def)
  then show ?thesis using hi_there_output by (rule conjI)
qed

theorem caption_rendering_witness:
  "all_words hi_there \<noteq> []
   \<and> timestamps_ok (py ''srt'')
         \<lparr>block_start = Finite 0, block_end = Finite 1, block_text = py ''Hithere''\<rparr>
   \<and> generate_output hi_there (py ''srt'') (py ''standard'') 10 2 False
       = Inr (caption_entries (py ''srt'') False 1
                [\<lparr>block_start = Finite 0, block_end = Finite 1, block_text = py ''Hithere''\<rparr>],
              2)"
proof -
  have ne: "all_words hi_there \<noteq> []" by (simp add: hi_there_words)
  have ok: "timestamps_ok (py ''srt'')
              \<lparr>block_start = Finite 0, block_end = Finite 1, block_text = py ''Hithere''\<rparr>"
    by (simp add: timestamps_ok_def srt_stamp_0 srt_stamp_1)
  then have all_ok: "\<forall>b\<in>set (layout_blocks (py ''standard'') 10 2 (all_words hi_there)).
                       timestamps_ok (py ''srt'') b"
    by (simp add: hi_there_blocks)
  have len: "length (all_words hi_there) = 2" by (simp add: hi_there_words)
  show ?thesis
    using caption_rendering [OF ne _ all_ok, of False] ne ok len
    by (simp add: hi_there_blocks)
qed

text \<open>
  The example as the claim states it fails: the output does not hold \<^verbatim>\<open>Hi there\<close>.
\<close>

theorem caption_example_counterexample:
  "generate_output hi_there (py ''srt'') (py ''standard'') 10 2 False
     \<noteq> Inr (py ''1'' @ [10] @ py ''00:00:00,000 --> 00:00:01,000'' @ [10] @ py ''Hi there''
            @ [10, 10], 2)"
  by (simp add: hi_there_output) (simp add: py_def)

subsection \<open>The packed layout\<close>

text \<open>The loop of the code and the loop that keeps the structure commute with \<open>pack_abs\<close>.\<close>
lemma pack_abs_init: "pack_abs layout_init = pack_init"
  by (simp add: pack_abs_def layout_init_def pack_init_def)

lemma pack_abs_flush_line: "pack_abs (layout_flush_line g) = flush_line (pack_abs g)"
  by (simp add: pack_abs_def layout_flush_line_def flush_line_def)

lemma pack_abs_flush_block: "pack_abs (layout_flush_block g) = flush_block (pack_abs g)"
  by (simp add: pack_abs_def layout_flush_block_def flush_block_def block_of_layout_def)

lemma pack_abs_fields:
  "current_line_len (pack_abs g) = open_len g"
  "current_line_words (pack_abs g) = open_line g"
  "length (current_block_lines (pack_abs g)) = length (open_block g)"
  by (simp_all add: pack_abs_def)

lemma pack_abs_make_room:
  "pack_abs (layout_make_room mc ml g w) = make_room mc ml (pack_abs g) w"
  by (simp add: layout_make_room_def make_room_def Let_def pack_abs_fields
        pack_abs_flush_line [symmetric] pack_abs_flush_block [symmetric])

lemma pack_abs_append: "pack_abs (layout_append g w) = append_word (pack_abs g) w"
  by (simp add: pack_abs_def layout_append_def append_word_def)

lemma pack_abs_word: "pack_abs (layout_word mc ml g w) = pack_word mc ml (pack_abs g) w"
  by (simp add: layout_word_def pack_word_def pack_abs_append pack_abs_make_room)

lemma pack_abs_foldl:
  "pack_abs (foldl (layout_word mc ml) g ws) = foldl (pack_word mc ml) (pack_abs g) ws"
  by (induction ws arbitrary: g) (simp_all add: pack_abs_word)

lemma pack_loop_layout: "pack_loop mc ml ws = pack_abs (layout_loop mc ml ws)"
  by (simp add: pack_loop_def layout_loop_def pack_abs_foldl pack_abs_init)

lemma packed_blocks_layout:
  "packed_blocks mc ml ws = map block_of_layout (packed_layout mc ml ws)"
  by (simp add: packed_blocks_def packed_layout_def pack_loop_layout
        pack_abs_flush_line [symmetric] pack_abs_flush_block [symmetric])
     (simp add: pack_abs_def)

lemma text_len_simps [simp]:
  "text_len [] = 0"
  "text_len (w # ws) = int (length (w_word w)) + text_len ws"
  "text_len (xs @ ys) = text_len xs + text_len ys"
  by (simp_all add: text_len_def)

lemma text_len_nonneg: "0 \<le> text_len ws"
  by (induction ws) simp_all

lemma appends_ok_snoc:
  "appends_ok mc acc (l @ [w]) =
     (appends_ok mc acc l
      \<and> (acc + text_len l = 0 \<or> acc + text_len l + int (length (w_word w)) \<le> mc))"
  by (induction l arbitrary: acc) (auto simp: add.assoc)

lemma appends_ok_long_word:
  "appends_ok mc acc l \<Longrightarrow> 0 \<le> acc \<Longrightarrow> 0 \<le> mc \<Longrightarrow> w \<in> set l \<Longrightarrow>
     mc < int (length (w_word w)) \<Longrightarrow> acc + text_len l = int (length (w_word w))"
proof (induction l arbitrary: acc)
  case Nil
  then show ?case by simp
next
  case (Cons x xs)
  show ?case
  proof (cases "mc < int (length (w_word x))")
    case True
    with Cons.prems have acc: "acc = 0" by auto
    have "xs = []"
    proof (rule ccontr)
      assume "xs \<noteq> []"
      then obtain y ys where "xs = y # ys" by (cases xs) auto
      with Cons.prems(1) True \<open>0 \<le> mc\<close> acc show False by auto
    qed
    with Cons.prems acc show ?thesis by auto
  next
    case False
    with Cons.prems have "w \<in> set xs" by auto
    from Cons.IH [OF _ _ \<open>0 \<le> mc\<close> this \<open>mc < int (length (w_word w))\<close>, of "acc + int (length (w_word x))"]
      Cons.prems
    show ?thesis by (auto simp: add.assoc)
  qed
qed

lemma lines_ok_init: "lines_ok mc layout_init"
  by (simp add: lines_ok_def layout_init_def)

lemma lines_ok_flush_line: "lines_ok mc g \<Longrightarrow> lines_ok mc (layout_flush_line g)"
  by (auto simp: lines_ok_def layout_flush_line_def)

lemma lines_ok_flush_block: "lines_ok mc g \<Longrightarrow> lines_ok mc (layout_flush_block g)"
  by (auto simp: lines_ok_def layout_flush_block_def)

lemma lines_ok_make_room: "lines_ok mc g \<Longrightarrow> lines_ok mc (layout_make_room mc ml g w)"
  by (simp add: layout_make_room_def Let_def lines_ok_flush_line lines_ok_flush_block)

lemma open_len_flush_block [simp]: "open_len (layout_flush_block g) = open_len g"
  "open_line (layout_flush_block g) = open_line g"
  by (simp_all add: layout_flush_block_def)

lemma make_room_bound:
  assumes "lines_ok mc g"
  shows "open_len (layout_make_room mc ml g w) = 0
         \<or> open_len (layout_make_room mc ml g w) + int (length (w_word w)) \<le> mc"
proof -
  have "0 \<le> open_len g" using assms by (simp add: lines_ok_def text_len_nonneg)
  moreover have "0 < open_len g \<Longrightarrow> open_len (layout_flush_line g) = 0"
    using assms by (auto simp: layout_flush_line_def lines_ok_def)
  ultimately show ?thesis
    by (auto simp: layout_make_room_def Let_def)
qed

lemma lines_ok_word:
  assumes "lines_ok mc g"
  shows "lines_ok mc (layout_word mc ml g w)"
proof -
  let ?g = "layout_make_room mc ml g w"
  have ok: "lines_ok mc ?g" using assms by (rule lines_ok_make_room)
  have b: "open_len ?g = 0 \<or> open_len ?g + int (length (w_word w)) \<le> mc"
    using assms by (rule make_room_bound)
  show ?thesis
    using ok b by (auto simp: lines_ok_def layout_word_def layout_append_def appends_ok_snoc)
qed

lemma lines_ok_foldl: "lines_ok mc g \<Longrightarrow> lines_ok mc (foldl (layout_word mc ml) g ws)"
  by (induction ws arbitrary: g) (simp_all add: lines_ok_word)

lemma lines_ok_loop: "lines_ok mc (layout_loop mc ml ws)"
  by (simp add: layout_loop_def lines_ok_foldl lines_ok_init)

lemma words_of_flush_line [simp]: "words_of (layout_flush_line g) = words_of g"
  by (simp add: words_of_def layout_flush_line_def)

lemma words_of_flush_block [simp]: "words_of (layout_flush_block g) = words_of g"
  by (simp add: words_of_def layout_flush_block_def)

lemma words_of_make_room [simp]: "words_of (layout_make_room mc ml g w) = words_of g"
  by (simp add: layout_make_room_def Let_def)

lemma words_of_append [simp]: "words_of (layout_append g w) = words_of g @ [w]"
  by (simp add: words_of_def layout_append_def)

lemma words_of_word [simp]: "words_of (layout_word mc ml g w) = words_of g @ [w]"
  by (simp add: layout_word_def)

lemma words_of_foldl: "words_of (foldl (layout_word mc ml) g ws) = words_of g @ ws"
  by (induction ws arbitrary: g) simp_all

lemma words_of_loop: "words_of (layout_loop mc ml ws) = ws"
  by (simp add: layout_loop_def words_of_foldl) (simp add: words_of_def layout_init_def)

lemma packed_layout_words: "concat (concat (packed_layout mc ml ws)) = ws"
proof -
  let ?g = "layout_flush_block (layout_flush_line (layout_loop mc ml ws))"
  have "words_of ?g = ws" by (simp add: words_of_loop)
  moreover have "open_line ?g = []" "open_block ?g = []"
    by (simp_all add: layout_flush_block_def layout_flush_line_def)
  ultimately show ?thesis by (simp add: words_of_def packed_layout_def)
qed

lemma blocks_ok_make_room:
  assumes "blocks_ok ml g"
  shows "blocks_ok ml (layout_make_room mc ml g w)"
  using assms
  by (auto simp: blocks_ok_def layout_make_room_def Let_def layout_flush_line_def
        layout_flush_block_def)

lemma blocks_ok_word: "blocks_ok ml g \<Longrightarrow> blocks_ok ml (layout_word mc ml g w)"
  using blocks_ok_make_room [of ml g mc w]
  by (simp add: layout_word_def layout_append_def blocks_ok_def)

lemma blocks_ok_foldl: "blocks_ok ml g \<Longrightarrow> blocks_ok ml (foldl (layout_word mc ml) g ws)"
  by (induction ws arbitrary: g) (simp_all add: blocks_ok_word)

lemma blocks_ok_loop: "0 < ml \<Longrightarrow> blocks_ok ml (layout_loop mc ml ws)"
  unfolding layout_loop_def
  by (rule blocks_ok_foldl) (simp add: blocks_ok_def layout_init_def)

lemmas layout_defs = packed_layout_def layout_loop_def layout_word_def layout_make_room_def
  layout_append_def layout_flush_line_def layout_flush_block_def layout_init_def

lemma current_line_len_loop:
  "current_line_len (pack_loop mc ml ws) = text_len (current_line_words (pack_loop mc ml ws))"
  using lines_ok_loop [of mc ml ws]
  by (simp add: pack_loop_layout pack_abs_fields lines_ok_def)

lemma make_room_state:
  "current_line_len (make_room mc ml (pack_loop mc ml ws) w)
     = text_len (current_line_words (make_room mc ml (pack_loop mc ml ws) w))
   \<and> (current_line_len (make_room mc ml (pack_loop mc ml ws) w) = 0
      \<or> current_line_len (make_room mc ml (pack_loop mc ml ws) w) + int (length (w_word w)) \<le> mc)"
proof -
  let ?g = "layout_make_room mc ml (layout_loop mc ml ws) w"
  have st: "make_room mc ml (pack_loop mc ml ws) w = pack_abs ?g"
    by (simp add: pack_loop_layout pack_abs_make_room)
  have "lines_ok mc ?g" by (simp add: lines_ok_make_room lines_ok_loop)
  then have "open_len ?g = text_len (open_line ?g)" by (simp add: lines_ok_def)
  moreover have "open_len ?g = 0 \<or> open_len ?g + int (length (w_word w)) \<le> mc"
    by (rule make_room_bound) (rule lines_ok_loop)
  ultimately show ?thesis by (simp add: st pack_abs_fields)
qed

lemma lines_ok_final:
  "lines_ok mc (layout_flush_block (layout_flush_line (layout_loop mc ml ws)))"
  by (simp add: lines_ok_flush_block lines_ok_flush_line lines_ok_loop)

lemma packed_layout_lines:
  assumes "b \<in> set (packed_layout mc ml ws)" "l \<in> set b"
  shows "l \<noteq> [] \<and> appends_ok mc 0 l"
  using lines_ok_final [of mc ml ws] assms
  by (simp add: lines_ok_def packed_layout_def)

text \<open>
  C1 (amended). In the packed layout, for every sequence of words and every positive
  \<open>max_chars\<close>: at the moment a word is appended to the current line (the state after
  lines 335 to 338 for any words \<open>ws\<close> processed before and the next word \<open>w\<close>), the
  accumulated character length of the line is the sum of the lengths of its words, and
  it is zero or the accumulated length plus the length of the word is at most
  \<open>max_chars\<close>. No word is dropped, split or moved: the lines of the blocks, in order,
  are the word sequence. A word longer than \<open>max_chars\<close> is on a line whose other words
  all have empty text.
\<close>

theorem packed_append_bound:
  assumes "0 < max_chars"
  shows "(let st = make_room max_chars max_lines (pack_loop max_chars max_lines ws) w
          in current_line_len st = text_len (current_line_words st)
             \<and> (current_line_len st = 0
                \<or> current_line_len st + int (length (w_word w)) \<le> max_chars))
         \<and> packed_blocks max_chars max_lines ws
             = map block_of_layout (packed_layout max_chars max_lines ws)
         \<and> concat (concat (packed_layout max_chars max_lines ws)) = ws
         \<and> (\<forall>b\<in>set (packed_layout max_chars max_lines ws). \<forall>l\<in>set b.
               l \<noteq> [] \<and> appends_ok max_chars 0 l
               \<and> (\<forall>x\<in>set l. max_chars < int (length (w_word x))
                     \<longrightarrow> text_len l = int (length (w_word x))))"
proof -
  have "\<And>b l x. b \<in> set (packed_layout max_chars max_lines ws) \<Longrightarrow> l \<in> set b \<Longrightarrow>
          x \<in> set l \<Longrightarrow> max_chars < int (length (w_word x)) \<Longrightarrow>
          text_len l = int (length (w_word x))"
  proof -
    fix b l x
    assume "b \<in> set (packed_layout max_chars max_lines ws)" "l \<in> set b"
      and x: "x \<in> set l" "max_chars < int (length (w_word x))"
    then have "appends_ok max_chars 0 l" by (simp add: packed_layout_lines)
    from appends_ok_long_word [OF this _ _ x] assms
    show "text_len l = int (length (w_word x))" by simp
  qed
  then have lines: "\<forall>b\<in>set (packed_layout max_chars max_lines ws). \<forall>l\<in>set b.
               l \<noteq> [] \<and> appends_ok max_chars 0 l
               \<and> (\<forall>x\<in>set l. max_chars < int (length (w_word x))
                     \<longrightarrow> text_len l = int (length (w_word x)))"
    using packed_layout_lines [of _ max_chars max_lines ws] by blast
  have state: "let st = make_room max_chars max_lines (pack_loop max_chars max_lines ws) w
          in current_line_len st = text_len (current_line_words st)
             \<and> (current_line_len st = 0
                \<or> current_line_len st + int (length (w_word w)) \<le> max_chars)"
    unfolding Let_def by (rule make_room_state)
  show ?thesis
    using state lines packed_blocks_layout [of max_chars max_lines ws]
      packed_layout_words [of max_chars max_lines ws]
    by blast
qed

lemma seven_words_layout:
  "packed_layout 6 2 seven_words =
     [[[seven_words ! 0, seven_words ! 1], [seven_words ! 2]],
      [[seven_words ! 3], [seven_words ! 4, seven_words ! 5, seven_words ! 6]]]"
  by (simp add: seven_words_def layout_defs py_def)

theorem packed_append_bound_witness:
  "concat (concat (packed_layout 6 2 seven_words)) = seven_words
   \<and> packed_layout 6 2 seven_words =
       [[[seven_words ! 0, seven_words ! 1], [seven_words ! 2]],
        [[seven_words ! 3], [seven_words ! 4, seven_words ! 5, seven_words ! 6]]]
   \<and> appends_ok 6 0 [seven_words ! 4, seven_words ! 5, seven_words ! 6]
   \<and> text_len [seven_words ! 3] = int (length (w_word (seven_words ! 3)))"
  using packed_append_bound [of 6 2 seven_words "seven_words ! 0"]
  by (simp add: seven_words_layout)

text \<open>
  As the claim states it, with the line being empty, the property fails: after a word
  of empty text the line is not empty, its accumulated length is zero, and a word
  longer than \<open>max_chars\<close> is appended to it and shares the line.
\<close>

theorem packed_append_counterexample:
  "current_line_words (make_room 3 2 (pack_loop 3 2 [empty_word]) long_word) \<noteq> []
   \<and> \<not> current_line_len (make_room 3 2 (pack_loop 3 2 [empty_word]) long_word)
          + int (length (w_word long_word)) \<le> 3
   \<and> packed_layout 3 2 [empty_word, long_word] = [[[empty_word, long_word]]]"
  by (simp add: pack_defs layout_defs empty_word_def long_word_def py_def)

text \<open>
  C2. In the packed layout, for every sequence of words and every positive \<open>max_lines\<close>,
  every block of the final block list is built from at least one and at most
  \<open>max_lines\<close> lines, none of them empty; every block but the last is built from
  exactly \<open>max_lines\<close> lines.
\<close>

theorem packed_block_line_count:
  assumes "0 < max_lines"
  shows "packed_blocks max_chars max_lines ws
           = map block_of_layout (packed_layout max_chars max_lines ws)
         \<and> (\<forall>b\<in>set (packed_layout max_chars max_lines ws).
               b \<noteq> [] \<and> [] \<notin> set b \<and> int (length b) \<le> max_lines)
         \<and> (\<forall>b\<in>set (butlast (packed_layout max_chars max_lines ws)).
               int (length b) = max_lines)"
proof -
  let ?g = "layout_loop max_chars max_lines ws"
  let ?g1 = "layout_flush_line ?g"
  have ok: "blocks_ok max_lines ?g" using assms by (rule blocks_ok_loop)
  have d1: "done_blocks ?g1 = done_blocks ?g" by (simp add: layout_flush_line_def)
  have o1: "int (length (open_block ?g1)) \<le> max_lines"
    using ok by (auto simp: layout_flush_line_def blocks_ok_def)
  have full: "\<forall>b\<in>set (done_blocks ?g). int (length b) = max_lines"
    using ok by (simp add: blocks_ok_def)
  have pl: "packed_layout max_chars max_lines ws
              = (if open_block ?g1 \<noteq> [] then done_blocks ?g @ [open_block ?g1]
                 else done_blocks ?g)"
    by (simp add: packed_layout_def layout_flush_block_def d1)
  have ne: "\<forall>b\<in>set (packed_layout max_chars max_lines ws). b \<noteq> []"
    using full assms by (auto simp: pl)
  have le: "\<forall>b\<in>set (packed_layout max_chars max_lines ws). int (length b) \<le> max_lines"
    using full o1 by (auto simp: pl)
  have bl: "\<forall>b\<in>set (butlast (packed_layout max_chars max_lines ws)).
              int (length b) = max_lines"
    using full by (auto simp: pl dest: in_set_butlastD)
  have li: "\<forall>b\<in>set (packed_layout max_chars max_lines ws). [] \<notin> set b"
    using packed_layout_lines [of _ max_chars max_lines ws] by blast
  show ?thesis using ne le bl li by (simp add: packed_blocks_layout)
qed

theorem packed_block_line_count_witness:
  "map length (packed_layout 6 2 seven_words) = [2, 2]
   \<and> packed_blocks 6 2 seven_words = map block_of_layout (packed_layout 6 2 seven_words)"
  using packed_block_line_count [of 2 6 seven_words]
  by (simp add: seven_words_layout)

subsection \<open>The profanity filter\<close>

lemma ci_prefix_length: "ci_prefix w t \<Longrightarrow> length w \<le> length t"
  by (induction w t rule: ci_prefix.induct) simp_all

lemma mask_word_length [simp]: "length (mask_word w t) = length t"
proof (induction w t rule: mask_word.induct)
  case (1 w)
  show ?case by simp
next
  case (2 w c cs)
  show ?case
  proof (cases "w \<noteq> [] \<and> ci_prefix w (c # cs)")
    case True
    then have "length w \<le> length (c # cs)" using ci_prefix_length [of w "c # cs"] by simp
    with True 2 show ?thesis by simp
  next
    case False
    with 2 show ?thesis by auto
  qed
qed

lemma mask_word_star_or_same: "star_or_same t (mask_word w t)"
proof (induction w t rule: mask_word.induct)
  case (1 w)
  show ?case by simp
next
  case (2 w c cs)
  show ?case
  proof (cases "w \<noteq> [] \<and> ci_prefix w (c # cs)")
    case True
    let ?n = "length w"
    have len: "?n \<le> length (c # cs)" using True ci_prefix_length [of w "c # cs"] by simp
    have a: "star_or_same (take ?n (c # cs)) (replicate ?n 42)"
      using len by (simp add: list_all2_conv_all_nth)
    have b: "star_or_same (drop ?n (c # cs)) (mask_word w (drop ?n (c # cs)))"
      using True 2 by simp
    have "star_or_same (take ?n (c # cs) @ drop ?n (c # cs))
            (replicate ?n 42 @ mask_word w (drop ?n (c # cs)))"
      using a b by (rule list_all2_appendI)
    then show ?thesis using True by (simp del: drop_Suc_Cons take_Suc_Cons)
  next
    case False
    with 2 show ?thesis by auto
  qed
qed

lemma star_or_same_trans:
  assumes "star_or_same t t'" "star_or_same t' t''"
  shows "star_or_same t t''"
  by (rule list_all2_trans [OF _ assms]) auto

lemma star_or_same_refl: "star_or_same t t"
  by (simp add: list_all2_conv_all_nth)

lemma ci_prefix_unmask:
  "star_or_same t t' \<Longrightarrow> \<forall>p\<in>set w. \<not> ci_match p 42 \<Longrightarrow> ci_prefix w t' \<Longrightarrow> ci_prefix w t"
proof (induction w t' arbitrary: t rule: ci_prefix.induct)
  case (1 t')
  show ?case by simp
next
  case (2 p ps)
  then show ?case by simp
next
  case (3 p ps c cs)
  from "3.prems"(1) obtain a as where t: "t = a # as" and a: "c = a \<or> c = 42"
    and as: "star_or_same as cs"
    by (cases t) auto
  from "3.prems"(2,3) have "c \<noteq> 42" by auto
  with a have "c = a" by simp
  with "3.IH" [OF as] "3.prems"(2,3) show ?case by (simp add: t)
qed

lemma occurs_at_unmask:
  assumes "star_or_same t t'" "\<forall>p\<in>set w. \<not> ci_match p 42" "occurs_at w t' n"
  shows "occurs_at w t n"
proof -
  have "star_or_same (drop n t) (drop n t')" using assms(1) by (rule list_all2_dropI)
  then show ?thesis using assms(2,3) unfolding occurs_at_def by (rule ci_prefix_unmask)
qed

lemma occurs_at_Cons: "occurs_at w (c # cs) (Suc n) = occurs_at w cs n"
  by (simp add: occurs_at_def)

lemma mask_word_no_occurrence:
  "w \<noteq> [] \<Longrightarrow> \<forall>p\<in>set w. \<not> ci_match p 42 \<Longrightarrow> \<not> occurs_at w (mask_word w t) n"
proof (induction w t arbitrary: n rule: mask_word.induct)
  case (1 w)
  then show ?case by (cases w) (simp_all add: occurs_at_def)
next
  case (2 w c cs)
  obtain p ps where w: "w = p # ps" using "2.prems"(1) by (cases w) auto
  have star: "\<not> ci_match p 42" using "2.prems"(2) by (simp add: w)
  show ?case
  proof (cases "w \<noteq> [] \<and> ci_prefix w (c # cs)")
    case True
    note m = this
    let ?k = "length w"
    let ?r = "mask_word w (drop ?k (c # cs))"
    have res: "mask_word w (c # cs) = replicate ?k 42 @ ?r" using True by simp
    show ?thesis
    proof (cases "n < ?k")
      case True
      have nostar: "\<And>xs. \<not> ci_prefix w (42 # xs)" using star by (simp add: w)
      have "?k - n = Suc (?k - Suc n)" using True by simp
      then have "replicate (?k - n) 42 = 42 # replicate (?k - Suc n) (42::nat)"
        by (simp only: replicate_Suc)
      then have d: "drop n (replicate ?k 42 @ ?r) = 42 # (replicate (?k - Suc n) 42 @ ?r)"
        using True by simp
      show ?thesis unfolding res occurs_at_def d by (rule nostar)
    next
      case False
      then have "drop n (replicate ?k 42 @ ?r) = drop (n - ?k) ?r" by simp
      then have "occurs_at w (replicate ?k 42 @ ?r) n = occurs_at w ?r (n - ?k)"
        by (simp add: occurs_at_def)
      moreover have "\<not> occurs_at w ?r (n - ?k)" by (rule "2.IH"(1) [OF m "2.prems"])
      ultimately show ?thesis unfolding res by simp
    qed
  next
    case False
    note nm = this
    let ?r = "mask_word w cs"
    have res: "mask_word w (c # cs) = c # ?r" using False by auto
    have no: "\<not> ci_prefix w (c # cs)" using nm "2.prems"(1) by simp
    show ?thesis
    proof (cases n)
      case 0
      have "star_or_same (c # cs) (c # ?r)" by (simp add: mask_word_star_or_same)
      then have "ci_prefix w (c # ?r) \<Longrightarrow> ci_prefix w (c # cs)"
        using "2.prems"(2) by (rule ci_prefix_unmask)
      then have "\<not> ci_prefix w (c # ?r)" using no by blast
      then show ?thesis unfolding res 0 occurs_at_def by simp
    next
      case (Suc k)
      have "\<not> occurs_at w ?r k" by (rule "2.IH"(2) [OF nm "2.prems"])
      then show ?thesis unfolding res Suc occurs_at_Cons .
    qed
  qed
qed

lemma mask_word_id: "\<forall>n. \<not> occurs_at w t n \<Longrightarrow> mask_word w t = t"
proof (induction w t rule: mask_word.induct)
  case (1 w)
  show ?case by simp
next
  case (2 w c cs)
  from "2.prems" have "\<not> occurs_at w (c # cs) 0" by blast
  then have no: "\<not> ci_prefix w (c # cs)" by (simp add: occurs_at_def)
  have "\<forall>n. \<not> occurs_at w cs n"
    using "2.prems" occurs_at_Cons [of w c cs] by blast
  then have "mask_word w cs = cs" using "2.IH"(2) no by blast
  then show ?case using no by simp
qed

lemma foldl_mask_length [simp]:
  "length (foldl (\<lambda>text word. mask_word word text) t ws) = length t"
  by (induction ws arbitrary: t) simp_all

lemma foldl_mask_star_or_same:
  "star_or_same t (foldl (\<lambda>text word. mask_word word text) t ws)"
proof (induction ws arbitrary: t)
  case Nil
  show ?case by (simp add: star_or_same_refl)
next
  case (Cons w ws)
  have "star_or_same t (mask_word w t)" by (rule mask_word_star_or_same)
  moreover have "star_or_same (mask_word w t)
      (foldl (\<lambda>text word. mask_word word text) (mask_word w t) ws)"
    by (rule Cons.IH)
  ultimately show ?case by (simp add: star_or_same_trans)
qed

lemma foldl_mask_no_occurrence:
  assumes "\<forall>w\<in>set ws. star_free w" "w \<in> set ws"
  shows "\<not> occurs_at w (foldl (\<lambda>text word. mask_word word text) t ws) n"
  using assms
proof (induction ws arbitrary: t)
  case Nil
  then show ?case by simp
next
  case (Cons v vs)
  let ?t = "mask_word v t"
  show ?case
  proof (cases "w \<in> set vs")
    case True
    then show ?thesis using Cons.IH [of ?t] Cons.prems by simp
  next
    case False
    then have wv: "w = v" using Cons.prems(2) by simp
    have sf: "star_free w" using Cons.prems by auto
    have "\<not> occurs_at w ?t n"
      using sf unfolding wv star_free_def by (simp add: mask_word_no_occurrence)
    moreover have "star_or_same ?t (foldl (\<lambda>text word. mask_word word text) ?t vs)"
      by (rule foldl_mask_star_or_same)
    ultimately show ?thesis
      using occurs_at_unmask [of ?t _ w n] sf by (auto simp: star_free_def)
  qed
qed

lemma foldl_mask_id:
  "\<forall>w\<in>set ws. \<forall>n. \<not> occurs_at w t n \<Longrightarrow> foldl (\<lambda>text word. mask_word word text) t ws = t"
  by (induction ws) (simp_all add: mask_word_id)

lemma bad_words_star_free: "\<forall>w\<in>set bad_words. star_free w"
  by (simp add: bad_words_def star_free_def py_def ci_match_def)

text \<open>
  C10. The profanity filter is idempotent: after one pass no listed word occurs in the
  text any more (a masked character matches no letter of a listed word, and masking
  never completes an occurrence), so a second pass changes nothing.
\<close>

theorem apply_profanity_filter_idempotent:
  "apply_profanity_filter (apply_profanity_filter t) = apply_profanity_filter t"
proof -
  have "\<forall>w\<in>set bad_words. \<forall>n. \<not> occurs_at w (apply_profanity_filter t) n"
    unfolding apply_profanity_filter_def
    using foldl_mask_no_occurrence [OF bad_words_star_free] by blast
  then show ?thesis
    unfolding apply_profanity_filter_def by (rule foldl_mask_id)
qed

lemma occurs_at_drop: "occurs_at w (drop k t) n = occurs_at w t (n + k)"
  by (simp add: occurs_at_def add.commute)

lemma occurs_at_length: "occurs_at w t n \<Longrightarrow> w \<noteq> [] \<Longrightarrow> n + length w \<le> length t"
  using ci_prefix_length [of w "drop n t"]
  by (cases "n \<le> length t") (auto simp: occurs_at_def neq_Nil_conv)

lemma mask_word_changed:
  "mask_word w t ! i \<noteq> t ! i \<Longrightarrow> i < length t \<Longrightarrow>
     \<exists>n\<le>i. i < n + length w \<and> occurs_at w t n"
proof (induction w t arbitrary: i rule: mask_word.induct)
  case (1 w)
  then show ?case by simp
next
  case (2 w c cs)
  show ?case
  proof (cases "w \<noteq> [] \<and> ci_prefix w (c # cs)")
    case True
    note m = this
    let ?k = "length w"
    let ?r = "mask_word w (drop ?k (c # cs))"
    have res: "mask_word w (c # cs) = replicate ?k 42 @ ?r" using m by simp
    have len: "?k \<le> length (c # cs)" using m ci_prefix_length [of w "c # cs"] by simp
    show ?thesis
    proof (cases "i < ?k")
      case True
      moreover have "occurs_at w (c # cs) 0" using m by (simp add: occurs_at_def)
      ultimately show ?thesis by auto
    next
      case False
      then have a: "(replicate ?k 42 @ ?r) ! i = ?r ! (i - ?k)" by (simp add: nth_append)
      have b: "(c # cs) ! i = drop ?k (c # cs) ! (i - ?k)" using False len by simp
      have "?r ! (i - ?k) \<noteq> drop ?k (c # cs) ! (i - ?k)"
        using "2.prems"(1) unfolding res a b .
      moreover have "i - ?k < length (drop ?k (c # cs))" using "2.prems"(2) False by simp
      ultimately obtain n where n: "n \<le> i - ?k" "i - ?k < n + ?k"
        "occurs_at w (drop ?k (c # cs)) n"
        using "2.IH"(1) [OF m] by blast
      then have "n + ?k \<le> i" "i < n + ?k + ?k" "occurs_at w (c # cs) (n + ?k)"
        using False by (simp_all add: occurs_at_drop)
      then show ?thesis by blast
    qed
  next
    case False
    note nm = this
    have res: "mask_word w (c # cs) = c # mask_word w cs" using nm by auto
    show ?thesis
    proof (cases i)
      case 0
      then show ?thesis using "2.prems"(1) unfolding res by simp
    next
      case (Suc j)
      then have "mask_word w cs ! j \<noteq> cs ! j" "j < length cs"
        using "2.prems" unfolding res by simp_all
      then obtain n where "n \<le> j" "j < n + length w" "occurs_at w cs n"
        using "2.IH"(2) [OF nm] by blast
      then have "Suc n \<le> i" "i < Suc n + length w" "occurs_at w (c # cs) (Suc n)"
        by (simp_all add: Suc occurs_at_def)
      then show ?thesis by blast
    qed
  qed
qed

lemma mask_word_covers:
  "\<forall>s d. ci_prefix w s \<and> ci_prefix w (drop d s) \<and> d < length w \<longrightarrow> d = 0 \<Longrightarrow> w \<noteq> [] \<Longrightarrow>
     occurs_at w t n \<Longrightarrow> n \<le> i \<Longrightarrow> i < n + length w \<Longrightarrow> mask_word w t ! i = 42"
proof (induction w t arbitrary: n i rule: mask_word.induct)
  case (1 w)
  then show ?case by (cases w) (simp_all add: occurs_at_def)
next
  case (2 w c cs)
  note self = "2.prems"(1) and ne = "2.prems"(2) and occ = "2.prems"(3)
  show ?case
  proof (cases "w \<noteq> [] \<and> ci_prefix w (c # cs)")
    case True
    note m = this
    let ?k = "length w"
    let ?r = "mask_word w (drop ?k (c # cs))"
    have res: "mask_word w (c # cs) = replicate ?k 42 @ ?r" using m by simp
    show ?thesis
    proof (cases "n < ?k")
      case True
      have "ci_prefix w (drop n (c # cs))" using occ by (simp add: occurs_at_def)
      with m True self have "n = 0" by blast
      then have "i < ?k" using "2.prems"(5) by simp
      then show ?thesis unfolding res by (simp add: nth_append)
    next
      case False
      then have k: "?k \<le> n" by simp
      have "occurs_at w (drop ?k (c # cs)) (n - ?k)"
        using occ k by (simp add: occurs_at_drop)
      moreover have "n - ?k \<le> i - ?k" "i - ?k < n - ?k + ?k"
        using k "2.prems"(4,5) by simp_all
      ultimately have "?r ! (i - ?k) = 42"
        using "2.IH"(1) [OF m self ne] by blast
      moreover have "(replicate ?k 42 @ ?r) ! i = ?r ! (i - ?k)"
        using k "2.prems"(4) by (simp add: nth_append)
      ultimately show ?thesis unfolding res by simp
    qed
  next
    case False
    note nm = this
    have res: "mask_word w (c # cs) = c # mask_word w cs" using nm by auto
    have no: "\<not> ci_prefix w (c # cs)" using nm ne by simp
    have "n \<noteq> 0"
    proof
      assume "n = 0"
      then have "ci_prefix w (c # cs)" using occ by (simp add: occurs_at_def)
      with no show False by simp
    qed
    then obtain n' where n: "n = Suc n'" by (cases n) auto
    then obtain i' where i: "i = Suc i'" using "2.prems"(4) by (cases i) auto
    have "occurs_at w cs n'" using occ by (simp add: n occurs_at_def)
    moreover have "n' \<le> i'" "i' < n' + length w" using "2.prems"(4,5) by (simp_all add: n i)
    ultimately have "mask_word w cs ! i' = 42"
      using "2.IH"(2) [OF nm self ne] by blast
    then show ?thesis unfolding res i by simp
  qed
qed

lemma ci_match_lower_unique:
  "97 \<le> p \<Longrightarrow> p \<le> 122 \<Longrightarrow> 97 \<le> q \<Longrightarrow> q \<le> 122 \<Longrightarrow> ci_match p c \<Longrightarrow> ci_match q c \<Longrightarrow> p = q"
  by (auto simp: ci_match_def)

lemma ci_prefix_agree:
  "lower_word v \<Longrightarrow> lower_word w \<Longrightarrow> ci_prefix v s \<Longrightarrow> ci_prefix w s \<Longrightarrow> agree v w"
proof (induction v w arbitrary: s rule: agree.induct)
  case (1 p ps q qs)
  then obtain c cs where s: "s = c # cs" by (cases s) auto
  from 1 have "p = q"
    using ci_match_lower_unique [of p q c] by (simp add: s lower_word_def)
  moreover have "agree ps qs"
    using "1.IH" [of cs] "1.prems" by (simp add: s lower_word_def)
  ultimately show ?case by simp
qed simp_all

lemma overlap_agree:
  "lower_word v \<Longrightarrow> lower_word w \<Longrightarrow> ci_prefix v s \<Longrightarrow> ci_prefix w (drop d s) \<Longrightarrow>
     agree (drop d v) w"
proof (induction d arbitrary: v s)
  case 0
  then show ?case by (simp add: ci_prefix_agree)
next
  case (Suc d)
  show ?case
  proof (cases v)
    case Nil
    then show ?thesis by simp
  next
    case (Cons p ps)
    with Suc.prems(3) obtain c cs where s: "s = c # cs" by (cases s) auto
    have "agree (drop d ps) w"
      using Suc.IH [of ps cs] Suc.prems by (simp add: Cons s lower_word_def)
    then show ?thesis by (simp add: Cons)
  qed
qed

lemma no_overlap_occurrences:
  assumes "no_overlap ws" "v \<in> set ws" "w \<in> set ws" "lower_word v" "lower_word w"
    and "occurs_at v t m" "occurs_at w t n" "m \<le> n" "n < m + length v"
  shows "m = n \<and> v = w"
proof -
  let ?d = "n - m"
  have d: "?d < length v" using assms(8,9) by simp
  have "drop n t = drop ?d (drop m t)" using assms(8) by simp
  then have "ci_prefix w (drop ?d (drop m t))" using assms(7) by (simp add: occurs_at_def)
  moreover have "ci_prefix v (drop m t)" using assms(6) by (simp add: occurs_at_def)
  ultimately have "agree (drop ?d v) w"
    using assms(4,5) by (simp add: overlap_agree)
  moreover have "?d \<in> set [0..<length v]" using d by simp
  then have "agree (drop ?d v) w \<longrightarrow> ?d = 0 \<and> v = w"
    using assms(1,2,3) unfolding no_overlap_def list_all_iff by blast
  ultimately show ?thesis using assms(8) by simp
qed

lemma bad_words_no_overlap: "no_overlap bad_words"
  by (simp add: no_overlap_def bad_words_def py_def)

lemma bad_words_lower: "\<forall>w\<in>set bad_words. lower_word w"
  by (simp add: bad_words_def lower_word_def py_def)

lemma bad_words_distinct: "distinct bad_words"
  by (simp add: bad_words_def py_def)


lemma ci_prefix_same_nth:
  "length w \<le> length s \<Longrightarrow> length w \<le> length s' \<Longrightarrow> \<forall>j<length w. s' ! j = s ! j \<Longrightarrow>
     ci_prefix w s \<Longrightarrow> ci_prefix w s'"
proof (induction w arbitrary: s s')
  case Nil
  show ?case by simp
next
  case (Cons p ps)
  from Cons.prems(1) obtain c cs where s: "s = c # cs" by (cases s) auto
  from Cons.prems(2) obtain c' cs' where s': "s' = c' # cs'" by (cases s') auto
  have "c' = c" using Cons.prems(3) by (auto simp: s s')
  moreover have "\<forall>j<length ps. cs' ! j = cs ! j"
  proof (intro allI impI)
    fix j assume "j < length ps"
    then have "s' ! Suc j = s ! Suc j" using Cons.prems(3) by simp
    then show "cs' ! j = cs ! j" by (simp add: s s')
  qed
  then have "ci_prefix ps cs'"
    using Cons.IH [of cs cs'] Cons.prems by (simp add: s s')
  ultimately show ?case using Cons.prems(4) by (simp add: s s')
qed

lemma occurrence_kept:
  assumes "occurs_at w t' n" "w \<noteq> []" "length t'' = length t'"
    and "\<forall>j. n \<le> j \<and> j < n + length w \<longrightarrow> t'' ! j = t' ! j"
  shows "occurs_at w t'' n"
proof -
  have len: "n + length w \<le> length t'" using assms(1,2) by (rule occurs_at_length)
  have "\<forall>j<length w. drop n t'' ! j = drop n t' ! j"
    using assms(3,4) len by simp
  moreover have "length w \<le> length (drop n t')" "length w \<le> length (drop n t'')"
    using len assms(3) by simp_all
  ultimately show ?thesis
    using assms(1) unfolding occurs_at_def by (rule_tac ci_prefix_same_nth) 
qed

lemma foldl_mask_positions:
  assumes W: "no_overlap W" "\<forall>w\<in>set W. lower_word w \<and> star_free w"
  shows "set vs \<subseteq> set W \<Longrightarrow> distinct vs \<Longrightarrow> star_or_same t t' \<Longrightarrow>
     \<forall>w\<in>set vs. \<forall>n. occurs_at w t n \<longrightarrow> occurs_at w t' n \<Longrightarrow> i < length t \<Longrightarrow>
     ((\<exists>w\<in>set vs. \<exists>n\<le>i. i < n + length w \<and> occurs_at w t n)
        \<longrightarrow> foldl (\<lambda>text word. mask_word word text) t' vs ! i = 42)
     \<and> (foldl (\<lambda>text word. mask_word word text) t' vs ! i \<noteq> t' ! i
        \<longrightarrow> (\<exists>w\<in>set vs. \<exists>n\<le>i. i < n + length w \<and> occurs_at w t n))"
proof (induction vs arbitrary: t')
  case Nil
  show ?case by simp
next
  case (Cons v rest)
  let ?F = "foldl (\<lambda>text word. mask_word word text)"
  let ?t'' = "mask_word v t'"
  have vW: "v \<in> set W" using Cons.prems(1) by simp
  have lower: "\<And>w. w \<in> set W \<Longrightarrow> lower_word w" using W(2) by blast
  have sfree: "\<And>w. w \<in> set W \<Longrightarrow> \<forall>p\<in>set w. \<not> ci_match p 42"
    using W(2) by (auto simp: star_free_def)
  have ne: "\<And>w. w \<in> set W \<Longrightarrow> w \<noteq> []" using W(2) by (auto simp: star_free_def)
  have restW: "set rest \<subseteq> set W" using Cons.prems(1) by simp
  have len': "length t' = length t" using Cons.prems(3) by (simp add: list_all2_lengthD)
  have self: "\<forall>s d. ci_prefix v s \<and> ci_prefix v (drop d s) \<and> d < length v \<longrightarrow> d = 0"
  proof (intro allI impI)
    fix s d assume a: "ci_prefix v s \<and> ci_prefix v (drop d s) \<and> d < length v"
    then have "occurs_at v s 0" "occurs_at v s d" by (simp_all add: occurs_at_def)
    from no_overlap_occurrences [OF W(1) vW vW lower [OF vW] lower [OF vW] this] a
    show "d = 0" by simp
  qed
  have s'': "star_or_same t ?t''"
    using Cons.prems(3) mask_word_star_or_same by (rule star_or_same_trans)
  have unmask: "\<And>m. occurs_at v t' m \<Longrightarrow> occurs_at v t m"
    using Cons.prems(3) sfree [OF vW] by (rule occurs_at_unmask)
  have inv: "\<forall>w\<in>set rest. \<forall>n. occurs_at w t n \<longrightarrow> occurs_at w ?t'' n"
  proof (intro ballI allI impI)
    fix w n assume w: "w \<in> set rest" and occ: "occurs_at w t n"
    have wW: "w \<in> set W" using w restW by blast
    have wv: "w \<noteq> v" using w Cons.prems(2) by auto
    have occ': "occurs_at w t' n" using Cons.prems(4) w occ by simp
    have same: "\<forall>j. n \<le> j \<and> j < n + length w \<longrightarrow> ?t'' ! j = t' ! j"
    proof (intro allI impI, rule ccontr)
      fix j assume j: "n \<le> j \<and> j < n + length w" and neq: "?t'' ! j \<noteq> t' ! j"
      have "n + length w \<le> length t'" using occ' ne [OF wW] by (rule occurs_at_length)
      then have "j < length t'" using j by simp
      with neq obtain m where m: "m \<le> j" "j < m + length v" "occurs_at v t' m"
        using mask_word_changed by blast
      have om: "occurs_at v t m" using m(3) by (rule unmask)
      show False
      proof (cases "m \<le> n")
        case True
        moreover have "n < m + length v" using j m(2) by simp
        ultimately have "v = w"
          using no_overlap_occurrences [OF W(1) vW wW lower [OF vW] lower [OF wW] om occ]
          by simp
        with wv show False by simp
      next
        case False
        then have "n \<le> m" by simp
        moreover have "m < n + length w" using j m(1) by simp
        ultimately have "w = v"
          using no_overlap_occurrences [OF W(1) wW vW lower [OF wW] lower [OF vW] occ om]
          by simp
        with wv show False by simp
      qed
    qed
    show "occurs_at w ?t'' n"
      by (rule occurrence_kept [OF occ' ne [OF wW] _ same]) simp
  qed
  have IH: "((\<exists>w\<in>set rest. \<exists>n\<le>i. i < n + length w \<and> occurs_at w t n)
                \<longrightarrow> ?F ?t'' rest ! i = 42)
            \<and> (?F ?t'' rest ! i \<noteq> ?t'' ! i
                \<longrightarrow> (\<exists>w\<in>set rest. \<exists>n\<le>i. i < n + length w \<and> occurs_at w t n))"
  proof -
    have dr: "distinct rest" using Cons.prems(2) by simp
    show ?thesis by (rule Cons.IH [OF restW dr s'' inv Cons.prems(5)])
  qed
  have keep: "?t'' ! i = 42 \<Longrightarrow> ?F ?t'' rest ! i = 42"
  proof -
    assume a: "?t'' ! i = 42"
    have "star_or_same ?t'' (?F ?t'' rest)" by (rule foldl_mask_star_or_same)
    moreover have "i < length ?t''" using Cons.prems(5) len' by simp
    ultimately have "?F ?t'' rest ! i = ?t'' ! i \<or> ?F ?t'' rest ! i = 42"
      by (simp add: list_all2_conv_all_nth)
    with a show ?thesis by auto
  qed
  have a: "(\<exists>w\<in>set (v # rest). \<exists>n\<le>i. i < n + length w \<and> occurs_at w t n)
             \<longrightarrow> ?F ?t'' rest ! i = 42"
  proof
    assume "\<exists>w\<in>set (v # rest). \<exists>n\<le>i. i < n + length w \<and> occurs_at w t n"
    then obtain w n where wn: "w \<in> set (v # rest)" "n \<le> i" "i < n + length w" "occurs_at w t n"
      by blast
    show "?F ?t'' rest ! i = 42"
    proof (cases "w = v")
      case True
      have "occurs_at v t' n" using Cons.prems(4) wn(4) True by simp
      then have "?t'' ! i = 42"
        using mask_word_covers [OF self ne [OF vW]] wn(2,3) True by blast
      then show ?thesis by (rule keep)
    next
      case False
      then have "w \<in> set rest" using wn(1) by simp
      then show ?thesis using IH wn by blast
    qed
  qed
  have b: "?F ?t'' rest ! i \<noteq> t' ! i
             \<longrightarrow> (\<exists>w\<in>set (v # rest). \<exists>n\<le>i. i < n + length w \<and> occurs_at w t n)"
  proof
    assume neq: "?F ?t'' rest ! i \<noteq> t' ! i"
    show "\<exists>w\<in>set (v # rest). \<exists>n\<le>i. i < n + length w \<and> occurs_at w t n"
    proof (cases "?t'' ! i = t' ! i")
      case True
      then have "?F ?t'' rest ! i \<noteq> ?t'' ! i" using neq by simp
      then show ?thesis using IH by auto
    next
      case False
      moreover have "i < length t'" using Cons.prems(5) len' by simp
      ultimately obtain m where "m \<le> i" "i < m + length v" "occurs_at v t' m"
        using mask_word_changed by blast
      then show ?thesis using unmask by auto
    qed
  qed
  show ?case using a b by simp
qed

lemma covered_iff:
  "covered t i = (\<exists>w\<in>set bad_words. \<exists>n\<le>i. i < n + length w \<and> occurs_at w t n)"
proof -
  have "\<And>n. (n \<in> set [0..<Suc i]) = (n \<le> i)"
    by (simp del: upt_Suc add: less_Suc_eq_le)
  then show ?thesis unfolding covered_def list_ex_iff by blast
qed

text \<open>
  C7. The filter keeps the length of the text. A position of the output holds the mask
  character when it lies inside a case-insensitive occurrence of a listed word in the
  input, and the character of the input otherwise: every occurrence is replaced by
  mask characters over its whole length and every character outside the occurrences
  is unchanged. (Occurrences of the listed words never overlap, so the order of the
  list does not show.)
\<close>

theorem apply_profanity_filter_masks:
  "length (apply_profanity_filter t) = length t
   \<and> (\<forall>i<length t. apply_profanity_filter t ! i = (if covered t i then 42 else t ! i))"
proof -
  have W: "\<forall>w\<in>set bad_words. lower_word w \<and> star_free w"
    using bad_words_lower bad_words_star_free by blast
  have "\<forall>i<length t. apply_profanity_filter t ! i = (if covered t i then 42 else t ! i)"
  proof (intro allI impI)
    fix i assume i: "i < length t"
    from foldl_mask_positions [OF bad_words_no_overlap W subset_refl bad_words_distinct
        star_or_same_refl [of t] _ i]
    show "apply_profanity_filter t ! i = (if covered t i then 42 else t ! i)"
      unfolding apply_profanity_filter_def covered_iff by auto
  qed
  then show ?thesis by (simp add: apply_profanity_filter_def)
qed

lemma oh_covered: "covered (py ''Oh sHit!'') 4"
  by (simp add: covered_def bad_words_def occurs_at_def py_def ci_match_def upt_rec)

lemma oh_not_covered: "\<not> covered (py ''Oh sHit!'') 1"
  by (simp add: covered_def bad_words_def occurs_at_def py_def ci_match_def upt_rec)

lemma oh_masked: "apply_profanity_filter (py ''Oh sHit!'') = py ''Oh ****!''"
  by (simp add: apply_profanity_filter_def bad_words_def py_def ci_match_def)

lemma unicode_masked: "apply_profanity_filter ([383] @ py ''hIt fuc'' @ [8490, 304]) = py ''**** ****'' @ [304]"
  by (simp add: apply_profanity_filter_def bad_words_def py_def ci_match_def)

theorem apply_profanity_filter_masks_witness:
  "length (apply_profanity_filter (py ''Oh sHit!'')) = 8
   \<and> apply_profanity_filter (py ''Oh sHit!'') ! 4 = 42
   \<and> apply_profanity_filter (py ''Oh sHit!'') ! 1 = 104"
  using apply_profanity_filter_masks [of "py ''Oh sHit!''"] oh_covered oh_not_covered
  by (simp add: py_def)

subsection \<open>Rounding to doubles\<close>

lemma pow2_powi: "pow2 e = 2 powi e"
  by (simp add: pow2_def power_int_def power_one_over inverse_eq_divide)

lemma pow2_pos [simp]: "0 < pow2 e"
  by (simp add: pow2_powi)

lemma pow2_add: "pow2 (a + b) = pow2 a * pow2 b"
  by (simp add: pow2_powi power_int_add)

lemma pow2_Suc: "pow2 (e + 1) = 2 * pow2 e"
  by (simp add: pow2_add) (simp add: pow2_def)

lemma pow2_pred: "pow2 (e - 1) = pow2 e / 2"
  using pow2_Suc [of "e - 1"] by simp

lemma pow2_mono: "a \<le> b \<Longrightarrow> pow2 a \<le> pow2 b"
  by (simp add: pow2_powi power_int_increasing)

lemma pow2_strict_mono: "a < b \<Longrightarrow> pow2 a < pow2 b"
  by (simp add: pow2_powi power_int_strict_increasing)

lemma pow2_nat: "0 \<le> e \<Longrightarrow> pow2 e = of_int (2 ^ nat e)"
  by (simp add: pow2_def)

lemma pow2_inverse: "e \<le> 0 \<Longrightarrow> pow2 e = 1 / of_int (2 ^ nat (- e))"
  by (cases "e = 0") (simp_all add: pow2_def)

lemma exp_up_bounds: "1 \<le> y \<Longrightarrow> pow2 (exp_up y) \<le> y \<and> y < pow2 (exp_up y + 1)"
proof (induction y rule: exp_up.induct)
  case (1 y)
  show ?case
  proof (cases "y < 2")
    case True
    then have "exp_up y = 0" by (simp add: exp_up.simps)
    then show ?thesis using True "1.prems" by (simp add: pow2_def)
  next
    case False
    then have e: "exp_up y = 1 + exp_up (y / 2)" by (subst exp_up.simps) simp
    have "1 \<le> y / 2" using False by simp
    then have "pow2 (exp_up (y / 2)) \<le> y / 2 \<and> y / 2 < pow2 (exp_up (y / 2) + 1)"
      using "1.IH" False by blast
    then show ?thesis
      unfolding e using pow2_Suc [of "exp_up (y / 2)"] pow2_Suc [of "exp_up (y / 2) + 1"]
      by (simp add: add.commute)
  qed
qed

lemma exp_down_bounds:
  "0 < y \<Longrightarrow> y < 1 \<Longrightarrow> pow2 (exp_down y) \<le> y \<and> y < pow2 (exp_down y + 1)"
proof (induction y rule: exp_down.induct)
  case (1 y)
  have e: "exp_down y = exp_down (y * 2) - 1"
    using "1.prems" by (subst exp_down.simps) simp
  have c: "\<not> (y \<le> 0 \<or> 1 \<le> y)" using "1.prems" by simp
  show ?case
  proof (cases "y * 2 < 1")
    case True
    then have "pow2 (exp_down (y * 2)) \<le> y * 2 \<and> y * 2 < pow2 (exp_down (y * 2) + 1)"
      using "1.IH" [OF c] "1.prems" by simp
    then show ?thesis
      unfolding e using pow2_pred [of "exp_down (y * 2)"] pow2_Suc [of "exp_down (y * 2)"]
      by simp
  next
    case False
    then have "exp_down (y * 2) = 0" by (subst exp_down.simps) simp
    then have "exp_down y = - 1" using e by simp
    then show ?thesis using False "1.prems" by (simp add: pow2_def)
  qed
qed

lemma exponent_bounds:
  "0 < y \<Longrightarrow> pow2 (exponent y) \<le> y \<and> y < pow2 (exponent y + 1)"
  using exp_up_bounds [of y] exp_down_bounds [of y]
  by (cases "1 \<le> y") (simp_all add: exponent_def)

lemma exponent_unique:
  assumes "pow2 e \<le> x" "x < pow2 (e + 1)"
  shows "exponent x = e"
proof -
  have x: "0 < x" using assms(1) pow2_pos [of e] by linarith
  note b = exponent_bounds [OF x]
  show ?thesis
  proof (rule ccontr)
    assume ne: "exponent x \<noteq> e"
    show False
    proof (cases "exponent x < e")
      case True
      then have "pow2 (exponent x + 1) \<le> pow2 e" by (intro pow2_mono) simp
      with b assms(1) show False by linarith
    next
      case False
      with ne have "pow2 (e + 1) \<le> pow2 (exponent x)" by (intro pow2_mono) simp
      with b assms(2) show False by linarith
    qed
  qed
qed

lemma exponent_le:
  assumes "0 < y" "y < pow2 (k + 1)"
  shows "exponent y \<le> k"
proof (rule ccontr)
  assume "\<not> exponent y \<le> k"
  then have "pow2 (k + 1) \<le> pow2 (exponent y)" by (intro pow2_mono) simp
  with exponent_bounds [OF assms(1)] assms(2) show False by linarith
qed

lemma exponent_ge:
  assumes "pow2 k \<le> y"
  shows "k \<le> exponent y"
proof (rule ccontr)
  assume "\<not> k \<le> exponent y"
  then have "pow2 (exponent y + 1) \<le> pow2 k" by (intro pow2_mono) simp
  moreover have "0 < y" using assms pow2_pos [of k] by linarith
  ultimately show False using exponent_bounds [of y] assms by linarith
qed

lemma py_round_bounds: "\<lfloor>x\<rfloor> \<le> py_round x \<and> py_round x \<le> \<lfloor>x\<rfloor> + 1"
  by (simp add: py_round_def Let_def)

lemma py_round_error: "\<bar>of_int (py_round x) - x\<bar> \<le> 1 / 2"
proof -
  have "of_int \<lfloor>x\<rfloor> \<le> x" "x < of_int \<lfloor>x\<rfloor> + 1" by linarith+
  then show ?thesis
    by (auto simp: py_round_def Let_def abs_le_iff)
qed

lemma py_round_of_int [simp]: "py_round (of_int k) = k"
  by (simp add: py_round_def Let_def)

lemma py_round_ge_int: "of_int k \<le> x \<Longrightarrow> k \<le> py_round x"
proof -
  assume "of_int k \<le> x"
  then have "k \<le> \<lfloor>x\<rfloor>" by (simp add: le_floor_iff)
  then show ?thesis using py_round_bounds [of x] by linarith
qed

lemma py_round_le_int: "x \<le> of_int k \<Longrightarrow> py_round x \<le> k"
proof (cases "x = of_int k")
  case True
  then show ?thesis by simp
next
  case False
  assume "x \<le> of_int k"
  with False have "x < of_int k" by simp
  then have "\<lfloor>x\<rfloor> < k" by (simp add: floor_less_iff)
  then show ?thesis using py_round_bounds [of x] by linarith
qed

lemma py_round_add_even:
  assumes "even k"
  shows "py_round (x + of_int k) = py_round x + k"
  using assms by (simp add: py_round_def Let_def)

lemma ulp_pos [simp]: "0 < ulp y"
  by (simp add: ulp_def)

lemma ulp_nonneg [simp]: "0 \<le> ulp y"
  using ulp_pos [of y] by (rule less_imp_le)

lemma ulp_neq_0 [simp]: "ulp y \<noteq> 0"
  using ulp_pos [of y] by linarith

lemma fl_round_error: "\<bar>fl_round y - y\<bar> \<le> ulp y / 2"
proof -
  have "\<bar>of_int (py_round (y / ulp y)) - y / ulp y\<bar> * ulp y \<le> 1 / 2 * ulp y"
    using py_round_error [of "y / ulp y"] by (intro mult_right_mono) simp_all
  moreover have "\<bar>of_int (py_round (y / ulp y)) - y / ulp y\<bar> * ulp y = \<bar>fl_round y - y\<bar>"
  proof -
    have "(of_int (py_round (y / ulp y)) - y / ulp y) * ulp y = fl_round y - y"
      by (simp add: fl_round_def algebra_simps)
    then have "\<bar>(of_int (py_round (y / ulp y)) - y / ulp y) * ulp y\<bar> = \<bar>fl_round y - y\<bar>"
      by simp
    then show ?thesis by (simp add: abs_mult)
  qed
  ultimately show ?thesis by simp
qed

lemma fl_round_ge_multiple:
  assumes "of_int a * ulp y \<le> y"
  shows "of_int a * ulp y \<le> fl_round y"
proof -
  have "of_int a \<le> y / ulp y" using assms by (simp add: pos_le_divide_eq)
  then have "a \<le> py_round (y / ulp y)" by (rule py_round_ge_int)
  then have "(of_int a :: rat) \<le> of_int (py_round (y / ulp y))" by simp
  then show ?thesis unfolding fl_round_def by (intro mult_right_mono) simp_all
qed

lemma fl_round_le_multiple:
  assumes "y \<le> of_int a * ulp y"
  shows "fl_round y \<le> of_int a * ulp y"
proof -
  have "y / ulp y \<le> of_int a" using assms by (simp add: pos_divide_le_eq)
  then have "py_round (y / ulp y) \<le> a" by (rule py_round_le_int)
  then have "(of_int (py_round (y / ulp y)) :: rat) \<le> of_int a" by simp
  then show ?thesis unfolding fl_round_def by (intro mult_right_mono) simp_all
qed

lemma exponent_0 [simp]: "exponent 0 = 0"
  by (simp add: exponent_def exp_down.simps)

lemma ulp_inverse:
  assumes "\<bar>y\<bar> < pow2 (k + 1)" "0 \<le> k" "k \<le> 52"
  shows "\<exists>j. nat (52 - k) \<le> j \<and> ulp y = 1 / of_int (2 ^ j)"
proof -
  let ?e = "max (exponent \<bar>y\<bar>) (- 1022)"
  have "exponent \<bar>y\<bar> \<le> k"
  proof (cases "y = 0")
    case True
    then show ?thesis using assms(2) by simp
  next
    case False
    then have "0 < \<bar>y\<bar>" by simp
    then show ?thesis using assms(1) by (rule exponent_le)
  qed
  then have e: "?e \<le> k" using assms(2) by simp
  then have "?e - 52 \<le> 0" using assms(3) by simp
  then have "ulp y = 1 / of_int (2 ^ nat (- (?e - 52)))"
    unfolding ulp_def by (rule pow2_inverse)
  moreover have "52 - k \<le> - (?e - 52)" using e by linarith
  then have "nat (52 - k) \<le> nat (- (?e - 52))" by (rule nat_mono)
  ultimately show ?thesis by blast
qed

lemma int_multiple_ulp:
  assumes "ulp y = 1 / of_int (2 ^ j)"
  shows "of_int (N * 2 ^ j) * ulp y = of_int N"
proof -
  define P :: rat where "P = of_int (2 ^ j)"
  have P: "0 < P" by (simp add: P_def)
  have "of_int N * P * (1 / P) = of_int N" using P by simp
  then show ?thesis by (simp only: assms P_def of_int_mult)
qed

lemma ulp_le_power:
  assumes "ulp y = 1 / of_int (2 ^ j)" "k \<le> j"
  shows "ulp y \<le> 1 / 2 ^ k"
proof -
  have "(2::rat) ^ k \<le> 2 ^ j" using assms(2) by (intro power_increasing) simp_all
  then have "1 / (2::rat) ^ j \<le> 1 / 2 ^ k" by (intro divide_left_mono) simp_all
  then show ?thesis by (simp only: assms(1) of_int_power of_int_numeral)
qed

lemma floor_fl_round_below:
  assumes u: "ulp y = 1 / of_int (2 ^ j)"
    and lo: "of_int n \<le> y"
    and hi: "py_round (y / ulp y) < (n + 1) * 2 ^ j"
  shows "\<lfloor>fl_round y\<rfloor> = n"
proof -
  define P :: rat where "P = of_int (2 ^ j)"
  have P: "0 < P" by (simp add: P_def)
  have u': "ulp y = 1 / P" using u by (simp only: P_def)
  have nP: "of_int (n * 2 ^ j) = of_int n * P" by (simp only: P_def of_int_mult)
  have nP1: "of_int ((n + 1) * 2 ^ j - 1) = (of_int n + 1) * P - 1"
    by (simp only: P_def of_int_mult of_int_diff of_int_add of_int_1)
  have "of_int n * P * (1 / P) = of_int n" using P by simp
  then have n: "of_int (n * 2 ^ j) * ulp y = of_int n" by (simp only: nP u')
  have "of_int (n * 2 ^ j) * ulp y \<le> fl_round y"
    by (rule fl_round_ge_multiple) (simp only: n lo)
  then have 1: "of_int n \<le> fl_round y" by (simp only: n)
  have "py_round (y / ulp y) \<le> (n + 1) * 2 ^ j - 1" using hi by linarith
  then have "(of_int (py_round (y / ulp y)) :: rat) \<le> of_int ((n + 1) * 2 ^ j - 1)"
    by (simp only: of_int_le_iff)
  then have "of_int (py_round (y / ulp y)) * ulp y \<le> of_int ((n + 1) * 2 ^ j - 1) * ulp y"
    by (rule mult_right_mono) (rule ulp_nonneg)
  then have "fl_round y \<le> ((of_int n + 1) * P - 1) * (1 / P)"
    by (simp only: fl_round_def nP1 u')
  also have "\<dots> = of_int n + 1 - 1 / P" using P by (simp add: field_simps)
  also have "\<dots> < of_int n + 1" using P by simp
  finally have 2: "fl_round y < of_int n + 1" .
  show ?thesis using 1 2 by (simp add: floor_eq_iff)
qed

lemma floor_fl_round:
  assumes u: "ulp y = 1 / of_int (2 ^ j)"
    and lo: "of_int n \<le> y"
    and hi: "y \<le> of_int n + 1 - ulp y"
  shows "\<lfloor>fl_round y\<rfloor> = n"
proof -
  define P :: rat where "P = of_int (2 ^ j)"
  have P: "0 < P" by (simp add: P_def)
  have u': "ulp y = 1 / P" using u by (simp only: P_def)
  have nP1: "of_int ((n + 1) * 2 ^ j - 1) = (of_int n + 1) * P - 1"
    by (simp only: P_def of_int_mult of_int_diff of_int_add of_int_1)
  have "y \<le> of_int n + 1 - 1 / P" using hi by (simp only: u')
  then have "y * P \<le> (of_int n + 1 - 1 / P) * P"
    using P by (intro mult_right_mono) simp_all
  also have "\<dots> = (of_int n + 1) * P - 1" using P by (simp add: field_simps)
  finally have "y / (1 / P) \<le> of_int ((n + 1) * 2 ^ j - 1)" by (simp only: nP1) simp
  then have "y / ulp y \<le> of_int ((n + 1) * 2 ^ j - 1)" by (simp only: u')
  then have "py_round (y / ulp y) \<le> (n + 1) * 2 ^ j - 1" by (rule py_round_le_int)
  then have "py_round (y / ulp y) < (n + 1) * 2 ^ j" by linarith
  with u lo show ?thesis by (rule floor_fl_round_below)
qed

lemma product_round:
  assumes "\<bar>f\<bar> < 1"
  shows "\<bar>fl_round (f * 1000000)\<bar> \<le> 1000000"
    and "\<bar>fl_round (f * 1000000) - f * 1000000\<bar> \<le> 1 / 2 ^ 34"
    and "0 \<le> f \<Longrightarrow> 0 \<le> fl_round (f * 1000000)"
    and "f \<le> 0 \<Longrightarrow> fl_round (f * 1000000) \<le> 0"
proof -
  define y where "y = f * 1000000"
  have y: "\<bar>y\<bar> < 1000000" using assms by (simp add: y_def abs_mult)
  have "(1000000::rat) \<le> pow2 (19 + 1)" by (simp add: pow2_def)
  then have "\<bar>y\<bar> < pow2 (19 + 1)" using y by linarith
  then obtain j where j: "nat (52 - 19) \<le> j" "ulp y = 1 / of_int (2 ^ j)"
    using ulp_inverse [of y 19] by auto
  have m: "of_int (1000000 * 2 ^ j) * ulp y = 1000000"
    using int_multiple_ulp [OF j(2), of 1000000] by simp
  have m': "of_int (- 1000000 * 2 ^ j) * ulp y = - 1000000"
    using int_multiple_ulp [OF j(2), of "- 1000000"] by simp
  have "y \<le> of_int (1000000 * 2 ^ j) * ulp y" unfolding m using y by linarith
  then have "fl_round y \<le> of_int (1000000 * 2 ^ j) * ulp y" by (rule fl_round_le_multiple)
  then have 1: "fl_round y \<le> 1000000" unfolding m .
  have "of_int (- 1000000 * 2 ^ j) * ulp y \<le> y" unfolding m' using y by linarith
  then have "of_int (- 1000000 * 2 ^ j) * ulp y \<le> fl_round y" by (rule fl_round_ge_multiple)
  then have 2: "- 1000000 \<le> fl_round y" unfolding m' .
  show "\<bar>fl_round (f * 1000000)\<bar> \<le> 1000000"
    using 1 2 unfolding y_def by linarith
  have "33 \<le> j" using j(1) by simp
  with j(2) have "ulp y \<le> 1 / 2 ^ 33" by (rule ulp_le_power)
  then have "ulp y / 2 \<le> 1 / 2 ^ 34" by simp
  then show "\<bar>fl_round (f * 1000000) - f * 1000000\<bar> \<le> 1 / 2 ^ 34"
    using fl_round_error [of y] unfolding y_def by linarith
  have z: "of_int 0 * ulp y = 0" by simp
  show "0 \<le> fl_round (f * 1000000)" if "0 \<le> f"
  proof -
    have "of_int 0 * ulp y \<le> y" using that by (simp add: y_def)
    then have "of_int 0 * ulp y \<le> fl_round y" by (rule fl_round_ge_multiple)
    then show ?thesis by (simp add: y_def)
  qed
  show "fl_round (f * 1000000) \<le> 0" if "f \<le> 0"
  proof -
    have "y \<le> of_int 0 * ulp y" using that by (simp add: y_def mult_le_0_iff)
    then have "fl_round y \<le> of_int 0 * ulp y" by (rule fl_round_le_multiple)
    then show ?thesis by (simp add: y_def)
  qed
qed

lemma millis_exact:
  assumes "0 \<le> a" "a < 1000000"
  shows "py_int (fl_round (of_int a / 1000)) = a div 1000"
proof -
  define y :: rat where "y = of_int a / 1000"
  define n where "n = a div 1000"
  have a: "a = n * 1000 + a mod 1000" by (simp add: n_def)
  have y0: "0 \<le> y" using assms(1) by (simp add: y_def)
  have "y < 1000" using assms(2) by (simp add: y_def)
  moreover have "(1000::rat) \<le> pow2 (9 + 1)" by (simp add: pow2_def)
  ultimately have "\<bar>y\<bar> < pow2 (9 + 1)" using y0 by linarith
  then obtain j where j: "nat (52 - 9) \<le> j" "ulp y = 1 / of_int (2 ^ j)"
    using ulp_inverse [of y 9] by auto
  have "10 \<le> j" using j(1) by simp
  with j(2) have "ulp y \<le> 1 / 2 ^ 10" by (rule ulp_le_power)
  then have u: "ulp y \<le> 1 / 1000" by simp
  have "n * 1000 \<le> a" using a by simp
  then have "of_int (n * 1000) \<le> (of_int a :: rat)" by (simp only: of_int_le_iff)
  then have lo: "of_int n \<le> y" by (simp add: y_def)
  have "a mod 1000 \<le> 999" by simp
  then have "a \<le> n * 1000 + 999" using a by linarith
  then have "(of_int a :: rat) \<le> of_int (n * 1000 + 999)" by (simp only: of_int_le_iff)
  then have "y \<le> of_int n + 999 / 1000" by (simp add: y_def)
  then have hi: "y \<le> of_int n + 1 - ulp y" using u by linarith
  have f: "\<lfloor>fl_round y\<rfloor> = n" using j(2) lo hi by (rule floor_fl_round)
  have "of_int 0 * ulp y \<le> y" using y0 by simp
  then have "of_int 0 * ulp y \<le> fl_round y" by (rule fl_round_ge_multiple)
  then have "0 \<le> fl_round y" by simp
  then show ?thesis using f by (simp add: py_int_def y_def n_def)
qed

subsection \<open>The fields of a time delta\<close>

lemma timedelta_us_nonneg:
  assumes "0 \<le> x"
  shows "0 \<le> timedelta_us x"
    and "\<bar>of_int (timedelta_us x) - x * 1000000\<bar> \<le> 1 / 2 + 1 / 2 ^ 34"
proof -
  define W where "W = py_int x"
  define f where "f = x - of_int W"
  define P where "P = fl_round (f * 1000000)"
  define u where "u = py_round P"
  have W: "W = \<lfloor>x\<rfloor>" using assms by (simp add: W_def py_int_def)
  have f: "0 \<le> f" "f < 1" unfolding f_def W by linarith+
  then have af: "\<bar>f\<bar> < 1" by simp
  have T: "timedelta_us x = W * 1000000 + u"
    by (simp add: timedelta_us_def W_def f_def P_def u_def)
  have "0 \<le> P" unfolding P_def using f(1) by (rule product_round(3) [OF af])
  then have "of_int 0 \<le> P" by simp
  then have u0: "0 \<le> u" unfolding u_def by (rule py_round_ge_int)
  have "0 \<le> W" using assms by (simp add: W)
  then show "0 \<le> timedelta_us x" using u0 by (simp add: T)
  have e1: "\<bar>P - f * 1000000\<bar> \<le> 1 / 2 ^ 34" unfolding P_def by (rule product_round(2) [OF af])
  have e2: "\<bar>of_int u - P\<bar> \<le> 1 / 2" unfolding u_def by (rule py_round_error)
  have "of_int (timedelta_us x) - x * 1000000 = (of_int u - P) + (P - f * 1000000)"
    by (simp add: T f_def algebra_simps)
  then show "\<bar>of_int (timedelta_us x) - x * 1000000\<bar> \<le> 1 / 2 + 1 / 2 ^ 34"
    using e1 e2 by linarith
qed

lemma seconds_exact:
  assumes x0: "0 \<le> x" and dbl: "is_double x"
    and range: "timedelta_us x < 86400000000000000000"
  shows "py_int (fl_round (of_int (timedelta_us x) / 1000000)) = timedelta_us x div 1000000"
proof -
  define T where "T = timedelta_us x"
  define y :: rat where "y = of_int T / 1000000"
  define n where "n = T div 1000000"
  define D :: rat where "D = of_int T - x * 1000000"
  have T0: "0 \<le> T" unfolding T_def using x0 by (rule timedelta_us_nonneg)
  have "\<bar>D\<bar> \<le> 1 / 2 + 1 / 2 ^ 34"
    unfolding D_def T_def using x0 by (rule timedelta_us_nonneg)
  moreover have "(1 / 2 + 1 / 2 ^ 34 :: rat) < 6 / 10" by simp
  ultimately have D: "\<bar>D\<bar> < 6 / 10" by (rule le_less_trans)
  have yx: "y = x + D / 1000000" by (simp add: y_def D_def diff_divide_distrib)
  have n0: "0 \<le> n" using T0 by (simp add: n_def pos_imp_zdiv_nonneg_iff)
  have Tn: "T = n * 1000000 + T mod 1000000" by (simp add: n_def)
  have "T mod 1000000 \<le> 999999" by simp
  then have Thi: "T \<le> n * 1000000 + 999999" using Tn by linarith
  have Tlo: "n * 1000000 \<le> T" using Tn by simp
  have "of_int (n * 1000000) \<le> (of_int T :: rat)" using Tlo by (simp only: of_int_le_iff)
  then have lo: "of_int n \<le> y" by (simp add: y_def)
  have "(of_int T :: rat) \<le> of_int (n * 1000000 + 999999)" using Thi by (simp only: of_int_le_iff)
  then have hi1: "y \<le> of_int n + 999999 / 1000000" by (simp add: y_def)
  have y0: "0 \<le> y" using T0 by (simp add: y_def)
  have "(of_int T :: rat) < of_int 86400000000000000000"
    using range unfolding T_def by (simp only: of_int_less_iff)
  then have "y < 86400000000000" by (simp add: y_def)
  moreover have "(86400000000000::rat) \<le> pow2 (46 + 1)" by (simp add: pow2_def)
  ultimately have "\<bar>y\<bar> < pow2 (46 + 1)" using y0 by linarith
  then obtain j where j: "nat (52 - 46) \<le> j" "ulp y = 1 / of_int (2 ^ j)"
    using ulp_inverse [of y 46] by auto
  define q where "q = ulp y"
  have q0: "0 < q" by (simp add: q_def)
  have "6 \<le> j" using j(1) by simp
  with j(2) have "ulp y \<le> 1 / 2 ^ 6" by (rule ulp_le_power)
  then have q6: "q \<le> 1 / 64" by (simp add: q_def)
  have K: "of_int ((n + 1) * 2 ^ j) * q = of_int n + 1"
    unfolding q_def using int_multiple_ulp [OF j(2), of "n + 1"] by simp
  have K1: "of_int ((n + 1) * 2 ^ j - 1) * q = of_int n + 1 - q"
    using K by (simp add: algebra_simps)
  have hi: "py_round (y / ulp y) < (n + 1) * 2 ^ j"
  proof (rule ccontr)
    assume "\<not> py_round (y / ulp y) < (n + 1) * 2 ^ j"
    then have "(n + 1) * 2 ^ j \<le> py_round (y / q)" by (simp add: q_def)
    then have "(of_int ((n + 1) * 2 ^ j) :: rat) \<le> of_int (py_round (y / q))"
      by (simp only: of_int_le_iff)
    moreover have "of_int (py_round (y / q)) - y / q \<le> 1 / 2"
      using py_round_error [of "y / q"] by linarith
    ultimately have "of_int ((n + 1) * 2 ^ j) - 1 / 2 \<le> y / q" by linarith
    then have "(of_int ((n + 1) * 2 ^ j) - 1 / 2) * q \<le> y / q * q"
      using q0 by (intro mult_right_mono) simp_all
    then have "of_int ((n + 1) * 2 ^ j) * q - q / 2 \<le> y"
      using q0 by (simp add: algebra_simps)
    then have A: "of_int n + 1 - q / 2 \<le> y" by (simp only: K)
    have B: "2 / 1000000 \<le> q" using A hi1 by linarith
    have ypos: "0 < y" using A q6 n0 by linarith
    define e where "e = exponent y"
    have qe: "q = pow2 (max e (- 1022) - 52)"
      using y0 by (simp add: q_def ulp_def e_def)
    have e34: "34 \<le> e"
    proof (rule ccontr)
      assume "\<not> 34 \<le> e"
      then have "max e (- 1022) - 52 \<le> - 19" by simp
      then have "q \<le> pow2 (- 19)" unfolding qe by (rule pow2_mono)
      also have "\<dots> < 2 / 1000000" by (simp add: pow2_def)
      finally show False using B by simp
    qed
    then have qe': "q = pow2 (e - 52)" using qe by simp
    have eb: "pow2 e \<le> y" "y < pow2 (e + 1)"
      using exponent_bounds [OF ypos] by (simp_all add: e_def)
    have fl: "\<lfloor>y\<rfloor> = n"
      using floor_divide_of_int_eq [of T 1000000] by (simp add: y_def n_def)
    have pe: "pow2 e = of_int (2 ^ nat e)" using e34 by (intro pow2_nat) simp
    have pe1: "pow2 (e + 1) = of_int (2 ^ nat (e + 1))" using e34 by (intro pow2_nat) simp
    have "2 ^ nat e \<le> \<lfloor>y\<rfloor>" using eb(1) unfolding pe by (simp only: le_floor_iff)
    then have "(of_int (2 ^ nat e) :: rat) \<le> of_int n" unfolding fl by (simp only: of_int_le_iff)
    then have nlo: "pow2 e \<le> of_int n" by (simp only: pe)
    have "\<lfloor>y\<rfloor> < 2 ^ nat (e + 1)" using eb(2) unfolding pe1 by (simp only: floor_less_iff)
    then have "n + 1 \<le> 2 ^ nat (e + 1)" unfolding fl by simp
    then have "(of_int (n + 1) :: rat) \<le> of_int (2 ^ nat (e + 1))" by (simp only: of_int_le_iff)
    then have nhi: "of_int n + 1 \<le> pow2 (e + 1)" unfolding pe1 by simp
    have xn: "of_int n \<le> x" using A yx D q6 by linarith
    have xn1: "x < of_int n + 1"
    proof (rule ccontr)
      assume "\<not> x < of_int n + 1"
      then have "of_int n + 1 \<le> x" by simp
      then have "of_int n * 1000000 + 1000000 \<le> x * 1000000" by linarith
      moreover have "(of_int T :: rat) \<le> of_int n * 1000000 + 999999"
        using \<open>(of_int T :: rat) \<le> of_int (n * 1000000 + 999999)\<close> by simp
      ultimately have "D \<le> - 1" unfolding D_def by linarith
      then show False using D by linarith
    qed
    have "exponent x = e"
      by (rule exponent_unique) (use nlo xn xn1 nhi in linarith)+
    then have ux: "ulp x = q" using x0 by (simp add: ulp_def qe)
    define m where "m = py_round (x / ulp x)"
    have xm: "x = of_int m * q"
      using dbl unfolding is_double_def fl_round_def m_def ux by simp
    have "of_int m * q < of_int ((n + 1) * 2 ^ j) * q" using xn1 unfolding K xm [symmetric] .
    then have "(of_int m :: rat) < of_int ((n + 1) * 2 ^ j)"
      using q0 by (simp only: mult_less_cancel_right_pos)
    then have "m < (n + 1) * 2 ^ j" by (simp only: of_int_less_iff)
    then have "m \<le> (n + 1) * 2 ^ j - 1" by simp
    then have "(of_int m :: rat) \<le> of_int ((n + 1) * 2 ^ j - 1)" by (simp only: of_int_le_iff)
    then have "of_int m * q \<le> of_int ((n + 1) * 2 ^ j - 1) * q"
      using q0 by (intro mult_right_mono) simp_all
    then have "x \<le> of_int n + 1 - q" unfolding K1 xm [symmetric] .
    then have "q / 2 \<le> D / 1000000" using A yx by linarith
    then show False using B D by linarith
  qed
  have f: "\<lfloor>fl_round y\<rfloor> = n" using j(2) lo hi by (rule floor_fl_round_below)
  have "of_int 0 * ulp y \<le> y" using y0 by simp
  then have "of_int 0 * ulp y \<le> fl_round y" by (rule fl_round_ge_multiple)
  then have "0 \<le> fl_round y" by simp
  then show ?thesis using f by (simp add: py_int_def y_def n_def T_def)
qed

lemma timedelta_fields:
  fixes W u :: int
  assumes "T = W * 1000000 + u"
  shows "W div 86400 + (W mod 86400 + u div 1000000) div 86400 = T div 86400000000"
    and "(W mod 86400 + u div 1000000) mod 86400 = T div 1000000 mod 86400"
    and "u mod 1000000 = T mod 1000000"
proof -
  have q: "T div 1000000 = W + u div 1000000" using assms by simp
  have "T div 86400000000 = T div 1000000 div 86400"
    by (simp add: div_mult2_eq)
  also have "\<dots> = (W + u div 1000000) div 86400" by (simp add: q)
  also have "\<dots> = W div 86400 + (W mod 86400 + u div 1000000) div 86400"
  proof -
    have "W + u div 1000000 = W mod 86400 + u div 1000000 + W div 86400 * 86400"
      by simp
    then have "(W + u div 1000000) div 86400
                 = (W mod 86400 + u div 1000000 + W div 86400 * 86400) div 86400"
      by (rule arg_cong)
    also have "\<dots> = W div 86400 + (W mod 86400 + u div 1000000) div 86400"
      by (simp only: div_mult_self1)
    finally show ?thesis .
  qed
  finally show "W div 86400 + (W mod 86400 + u div 1000000) div 86400 = T div 86400000000"
    by simp
  show "(W mod 86400 + u div 1000000) mod 86400 = T div 1000000 mod 86400"
    by (simp add: q mod_simps)
  show "u mod 1000000 = T mod 1000000" using assms by simp
qed

lemma timedelta_of_seconds_finite:
  "timedelta_of_seconds (Finite r) =
     (if \<bar>timedelta_us r div 86400000000\<bar> > 999999999 then Inl OverflowError
      else Inr \<lparr>days = timedelta_us r div 86400000000,
                seconds = timedelta_us r div 1000000 mod 86400,
                microseconds = timedelta_us r mod 1000000\<rparr>)"
proof -
  define W where "W = py_int r"
  define u where "u = py_round (fl_round ((r - of_int W) * 1000000))"
  have T: "timedelta_us r = W * 1000000 + u"
    unfolding W_def u_def timedelta_us_def by (rule refl)
  have "timedelta_of_seconds (Finite r) =
     (if \<bar>W div 86400 + (W mod 86400 + u div 1000000) div 86400\<bar> > 999999999
      then Inl OverflowError
      else Inr \<lparr>days = W div 86400 + (W mod 86400 + u div 1000000) div 86400,
                seconds = (W mod 86400 + u div 1000000) mod 86400,
                microseconds = u mod 1000000\<rparr>)"
    unfolding timedelta_of_seconds_def Let_def W_def u_def pyfloat.case by (rule refl)
  then show ?thesis by (simp only: timedelta_fields [OF T])
qed

lemma total_seconds_fields:
  "total_seconds \<lparr>days = T div 86400000000, seconds = T div 1000000 mod 86400,
                   microseconds = T mod 1000000\<rparr> = fl_round (of_int T / 1000000)"
proof -
  have "T div 86400000000 = T div 1000000 div 86400"
    by (simp add: div_mult2_eq)
  then have "(T div 86400000000 * 86400 + T div 1000000 mod 86400) * 1000000 + T mod 1000000
               = T div 1000000 * 1000000 + T mod 1000000"
    by simp
  then have "(T div 86400000000 * 86400 + T div 1000000 mod 86400) * 1000000 + T mod 1000000 = T"
    by simp
  then show ?thesis by (simp add: total_seconds_def)
qed

subsection \<open>Failing timestamps\<close>

lemma format_timestamp_isl: "isl (format_timestamp x fmt) = isl (timedelta_of_seconds x)"
  by (simp add: format_timestamp_def Let_def split: sum.split)

lemma format_timestamp_nonfinite:
  "format_timestamp NaN fmt = Inl ValueError"
  "format_timestamp PosInf fmt = Inl OverflowError"
  "format_timestamp NegInf fmt = Inl OverflowError"
  by (simp_all add: format_timestamp_def timedelta_of_seconds_def)

lemma timedelta_us_nonpos:
  assumes "r \<le> 0"
  shows "timedelta_us r \<le> 0"
    and "py_int r * 1000000 - 1000000 \<le> timedelta_us r"
    and "r = of_int (py_int r) \<Longrightarrow> timedelta_us r = py_int r * 1000000"
proof -
  define W where "W = py_int r"
  define f where "f = r - of_int W"
  define P where "P = fl_round (f * 1000000)"
  define u where "u = py_round P"
  have W: "W = \<lceil>r\<rceil>" using assms by (cases "r = 0") (simp_all add: W_def py_int_def)
  have f: "- 1 < f" "f \<le> 0" unfolding f_def W by linarith+
  then have af: "\<bar>f\<bar> < 1" by simp
  have T: "timedelta_us r = W * 1000000 + u"
    by (simp add: timedelta_us_def W_def f_def P_def u_def)
  have "P \<le> 0" unfolding P_def using f(2) by (rule product_round(4) [OF af])
  then have "P \<le> of_int 0" by simp
  then have u0: "u \<le> 0" unfolding u_def by (rule py_round_le_int)
  have "\<bar>P\<bar> \<le> 1000000" unfolding P_def by (rule product_round(1) [OF af])
  then have "of_int (- 1000000) \<le> P" by simp
  then have u1: "- 1000000 \<le> u" unfolding u_def by (rule py_round_ge_int)
  have "W \<le> 0" using assms by (simp add: W ceiling_le_iff)
  then show "timedelta_us r \<le> 0" using u0 by (simp add: T)
  show "py_int r * 1000000 - 1000000 \<le> timedelta_us r"
    using u1 by (simp add: T W_def)
  show "timedelta_us r = py_int r * 1000000" if "r = of_int (py_int r)"
  proof -
    have "f = 0" using that by (simp add: f_def W_def)
    have r0: "py_round 0 = 0" using py_round_of_int [of 0] by simp
    have "f = 0" using that by (simp add: f_def W_def)
    then have "P = 0" by (simp add: P_def fl_round_def r0)
    then have "u = 0" by (simp add: u_def r0)
    then show ?thesis by (simp add: T W_def)
  qed
qed

lemma timedelta_negative:
  assumes "r < 0" "- 86399999913600 \<le> r"
  shows "\<not> isl (timedelta_of_seconds (Finite r))"
proof -
  let ?T = "timedelta_us r"
  have r0: "r \<le> 0" using assms(1) by simp
  have up: "?T \<le> 0" using r0 by (rule timedelta_us_nonpos)
  have W: "py_int r = \<lceil>r\<rceil>" using assms(1) by (simp add: py_int_def)
  have "of_int (- 86399999913600) \<le> r" using assms(2) by simp
  then have "of_int (- 86399999913600) \<le> (of_int \<lceil>r\<rceil> :: rat)" by linarith
  then have "- 86399999913600 \<le> \<lceil>r\<rceil>" by (simp only: of_int_le_iff)
  then have Wlo: "- 86399999913600 \<le> py_int r" by (simp add: W)
  have lo: "- 86399999913600000000 \<le> ?T"
  proof (cases "py_int r = - 86399999913600")
    case True
    then have "of_int (py_int r) \<le> r" using assms(2) by simp
    moreover have "r \<le> of_int (py_int r)" unfolding W by (rule le_of_int_ceiling)
    ultimately have "r = of_int (py_int r)" by simp
    with r0 have "?T = py_int r * 1000000" by (rule timedelta_us_nonpos)
    then show ?thesis by (simp add: True)
  next
    case False
    then have "- 86399999913599 \<le> py_int r" using Wlo by simp
    then show ?thesis using timedelta_us_nonpos(2) [OF r0] by linarith
  qed
  have "?T div 86400000000 \<le> 0 div 86400000000"
    using up by (intro zdiv_mono1) simp_all
  then have d_up: "?T div 86400000000 \<le> 0" by simp
  have "(- 86399999913600000000) div 86400000000 \<le> ?T div 86400000000"
    using lo by (intro zdiv_mono1) simp_all
  then have d_lo: "- 999999999 \<le> ?T div 86400000000" by simp
  have "\<not> \<bar>?T div 86400000000\<bar> > 999999999" using d_up d_lo by linarith
  then show ?thesis by (simp add: timedelta_of_seconds_finite)
qed

lemma render_loop_fails:
  "\<exists>b\<in>set bs. \<not> timestamps_ok fmt b \<Longrightarrow> isl (render_loop fmt redact bs out n)"
proof (induction bs arbitrary: out n)
  case Nil
  then show ?case by simp
next
  case (Cons b bs)
  show ?case
  proof (cases "timestamps_ok fmt b")
    case False
    then show ?thesis
      by (auto simp: timestamps_ok_def Let_def split: sum.splits)
  next
    case True
    with Cons.prems have "\<exists>b\<in>set bs. \<not> timestamps_ok fmt b" by simp
    then have "\<And>out n. isl (render_loop fmt redact bs out n)" by (rule Cons.IH)
    then show ?thesis by (cases redact) (simp_all add: Let_def split: sum.splits)
  qed
qed

lemma generate_output_fails:
  assumes "all_words segments \<noteq> []" "format_type \<noteq> py ''txt''"
    and "\<exists>b\<in>set (layout_blocks preset_mode max_chars max_lines (all_words segments)).
           \<not> timestamps_ok format_type b"
  shows "isl (generate_output segments format_type preset_mode max_chars max_lines redact)"
proof -
  let ?blocks = "layout_blocks preset_mode max_chars max_lines (all_words segments)"
  have "isl (render_blocks format_type redact ?blocks)"
    unfolding render_blocks_def by (rule render_loop_fails [OF assms(3)])
  then obtain e where "render_blocks format_type redact ?blocks = Inl e"
    by (cases "render_blocks format_type redact ?blocks") auto
  then show ?thesis
    using assms(1,2) by (simp add: generate_output_def Let_def)
qed

text \<open>
  C8 (amended). \<^verbatim>\<open>format_timestamp\<close> raises \<^verbatim>\<open>ValueError\<close> for NaN and \<^verbatim>\<open>OverflowError\<close>
  for either infinity, and nothing catches the exception: \<^verbatim>\<open>generate_output\<close> fails
  whenever a timestamp of one of its caption blocks does. A negative finite value down
  to \<open>-86399999913600\<close> seconds does not fail: it is rendered into a string.
\<close>

theorem format_timestamp_failures:
  "format_timestamp NaN fmt = Inl ValueError
   \<and> format_timestamp PosInf fmt = Inl OverflowError
   \<and> format_timestamp NegInf fmt = Inl OverflowError
   \<and> (r < 0 \<and> - 86399999913600 \<le> r \<longrightarrow> \<not> isl (format_timestamp (Finite r) fmt))
   \<and> (all_words segments \<noteq> [] \<and> format_type \<noteq> py ''txt''
        \<and> (\<exists>b\<in>set (layout_blocks preset_mode max_chars max_lines (all_words segments)).
              \<not> timestamps_ok format_type b)
       \<longrightarrow> isl (generate_output segments format_type preset_mode max_chars max_lines redact))"
  using timedelta_negative [of r]
    generate_output_fails [of segments format_type preset_mode max_chars max_lines redact]
  by (simp add: format_timestamp_nonfinite format_timestamp_isl)

lemma nan_blocks:
  "layout_blocks (py ''tiktok'') 42 2 (all_words nan_transcript)
     = [\<lparr>block_start = NaN, block_end = Finite 1, block_text = py ''oh''\<rparr>]"
  by (simp add: nan_transcript_def all_words_def layout_blocks_def word_block_def strip_def
        isspace_iff py_def)

theorem format_timestamp_failures_witness:
  "\<not> isl (format_timestamp (Finite (- 1 / 4)) (py ''srt''))
   \<and> isl (generate_output nan_transcript (py ''srt'') (py ''tiktok'') 42 2 False)"
proof -
  have w: "all_words nan_transcript \<noteq> []" by (simp add: nan_transcript_def all_words_def)
  have b: "\<exists>b\<in>set (layout_blocks (py ''tiktok'') 42 2 (all_words nan_transcript)).
             \<not> timestamps_ok (py ''srt'') b"
    by (simp add: nan_blocks timestamps_ok_def format_timestamp_nonfinite)
  show ?thesis
    using format_timestamp_failures
      [of "py ''srt''" "- 1 / 4" nan_transcript "py ''srt''" "py ''tiktok''" 42 2 False] w b
    by simp
qed

theorem format_timestamp_negative_counterexample:
  "format_timestamp (Finite (- 3 / 2)) (py ''srt'') = Inr (py ''-1:59:59,500'')"
  by code_simp

subsection \<open>Options\<close>

lemma format_timestamp_other:
  "fmt \<noteq> py ''vtt'' \<Longrightarrow> format_timestamp x fmt = format_timestamp x (py ''srt'')"
  by (simp add: format_timestamp_def Let_def split: sum.split)

lemma render_loop_other:
  "fmt \<noteq> py ''vtt'' \<Longrightarrow>
     render_loop fmt redact bs out n = render_loop (py ''srt'') redact bs out n"
proof (induction bs arbitrary: out n)
  case Nil
  show ?case by simp
next
  case (Cons b bs)
  have s: "\<And>x. format_timestamp x fmt = format_timestamp x (py ''srt'')"
    using Cons.prems by (rule format_timestamp_other)
  have "\<And>out n. render_loop fmt redact bs out n = render_loop (py ''srt'') redact bs out n"
    using Cons.prems by (rule Cons.IH)
  then show ?case
    by (cases redact) (simp_all add: Let_def s split: sum.split)
qed

lemma generate_output_other_format:
  "fmt \<noteq> py ''txt'' \<Longrightarrow> fmt \<noteq> py ''vtt'' \<Longrightarrow>
     generate_output segs fmt p mc ml redact = generate_output segs (py ''srt'') p mc ml redact"
proof -
  assume a: "fmt \<noteq> py ''txt''" and b: "fmt \<noteq> py ''vtt''"
  have r: "\<And>bs out n. render_loop fmt redact bs out n
             = render_loop (py ''srt'') redact bs out n"
    using b by (rule render_loop_other)
  have rb: "\<And>bs. render_blocks fmt redact bs = render_blocks (py ''srt'') redact bs"
    by (simp add: render_blocks_def r b)
  show ?thesis by (simp add: generate_output_def Let_def rb a)
qed

lemma generate_output_other_layout:
  "p \<noteq> py ''tiktok'' \<Longrightarrow>
     generate_output segs fmt p mc ml redact
       = generate_output segs fmt (py ''standard'') mc ml redact"
proof -
  assume a: "p \<noteq> py ''tiktok''"
  have b: "py ''standard'' \<noteq> py ''tiktok''" by (simp add: py_def)
  have lb: "\<And>ws. layout_blocks p mc ml ws = layout_blocks (py ''standard'') mc ml ws"
    by (simp add: layout_blocks_def a b)
  show ?thesis by (simp add: generate_output_def Let_def lb)
qed

lemma done_blocks_nonempty_word:
  "[] \<notin> set (done_blocks g) \<Longrightarrow> [] \<notin> set (done_blocks (layout_word mc ml g w))"
  by (auto simp: layout_word_def layout_append_def layout_make_room_def Let_def
        layout_flush_line_def layout_flush_block_def)

lemma done_blocks_nonempty_foldl:
  "[] \<notin> set (done_blocks g) \<Longrightarrow> [] \<notin> set (done_blocks (foldl (layout_word mc ml) g ws))"
  by (induction ws arbitrary: g) (simp_all add: done_blocks_nonempty_word)

lemma packed_layout_nonempty: "[] \<notin> set (packed_layout mc ml ws)"
proof -
  have "[] \<notin> set (done_blocks (layout_loop mc ml ws))"
    unfolding layout_loop_def
    by (rule done_blocks_nonempty_foldl) (simp add: layout_init_def)
  then show ?thesis
    by (auto simp: packed_layout_def layout_flush_block_def layout_flush_line_def)
qed

lemma packed_block_times:
  assumes "b \<in> set (packed_blocks mc ml ws)"
  shows "block_start b \<in> w_start ` set ws \<and> block_end b \<in> w_end ` set ws"
proof -
  from assms obtain L where L: "L \<in> set (packed_layout mc ml ws)" and b: "b = block_of_layout L"
    by (auto simp: packed_blocks_layout)
  have ne: "L \<noteq> []" using L packed_layout_nonempty [of mc ml ws] by auto
  have lines: "\<And>l. l \<in> set L \<Longrightarrow> l \<noteq> []"
    using packed_layout_lines [OF L] by simp
  have "set (concat L) \<subseteq> set (concat (concat (packed_layout mc ml ws)))"
    using L by auto
  then have sub: "set (concat L) \<subseteq> set ws"
    by (simp only: packed_layout_words)
  have h: "hd (hd L) \<in> set (concat L)"
    using ne lines [of "hd L"] by (cases L) auto
  have l: "last (last L) \<in> set (concat L)"
    using ne lines [of "last L"] by (cases L rule: rev_cases) auto
  have "block_start b = w_start (hd (hd L))" "block_end b = w_end (last (last L))"
    using ne by (simp_all add: b block_of_layout_def block_of_lines_def line_of_words_def
        hd_map last_map)
  then show ?thesis using h l sub by auto
qed

lemma layout_block_times:
  assumes "b \<in> set (layout_blocks p mc ml ws)"
  shows "block_start b \<in> w_start ` set ws \<and> block_end b \<in> w_end ` set ws"
  using assms packed_block_times [of b mc ml ws]
  by (auto simp: layout_blocks_def word_block_def split: if_splits)

lemma generate_output_succeeds:
  assumes "\<forall>w\<in>set (all_words segs). formattable (w_start w) \<and> formattable (w_end w)"
  shows "\<not> isl (generate_output segs fmt p mc ml redact)"
proof -
  have "\<forall>b\<in>set (layout_blocks p mc ml (all_words segs)). timestamps_ok fmt b"
  proof
    fix b assume "b \<in> set (layout_blocks p mc ml (all_words segs))"
    from layout_block_times [OF this] assms
    show "timestamps_ok fmt b"
      by (auto simp: timestamps_ok_def format_timestamp_isl formattable_def)
  qed
  from render_loop_entries [OF this] show ?thesis
    by (simp add: generate_output_def render_blocks_def Let_def)
qed

text \<open>
  C9 (amended). \<^verbatim>\<open>generate_output\<close> validates none of its options. A format tag other
  than \<^verbatim>\<open>txt\<close> and \<^verbatim>\<open>vtt\<close> renders as \<^verbatim>\<open>srt\<close>, a layout tag other than \<^verbatim>\<open>tiktok\<close>
  renders as the packed layout, and for every \<open>max_chars\<close> and \<open>max_lines\<close>, positive or
  not, the call returns an output whenever the start and end of every timed word can
  be formatted.
\<close>

theorem generate_output_unvalidated:
  "(format_type \<noteq> py ''txt'' \<and> format_type \<noteq> py ''vtt''
      \<longrightarrow> generate_output segs format_type preset_mode max_chars max_lines redact
          = generate_output segs (py ''srt'') preset_mode max_chars max_lines redact)
   \<and> (preset_mode \<noteq> py ''tiktok''
      \<longrightarrow> generate_output segs format_type preset_mode max_chars max_lines redact
          = generate_output segs format_type (py ''standard'') max_chars max_lines redact)
   \<and> ((\<forall>w\<in>set (all_words segs). formattable (w_start w) \<and> formattable (w_end w))
      \<longrightarrow> \<not> isl (generate_output segs format_type preset_mode max_chars max_lines redact))"
  using generate_output_other_format [of format_type segs preset_mode max_chars max_lines redact]
    generate_output_other_layout [of preset_mode segs format_type max_chars max_lines redact]
    generate_output_succeeds [of segs format_type preset_mode max_chars max_lines redact]
  by blast

lemma formattable_examples:
  "formattable (Finite 0)" "formattable (Finite (1 / 2))" "formattable (Finite 1)"
  by code_simp+

theorem generate_output_unvalidated_witness:
  "generate_output hi_there (py ''xyz'') (py ''abc'') 0 0 False
     = generate_output hi_there (py ''srt'') (py ''standard'') 0 0 False
   \<and> \<not> isl (generate_output hi_there (py ''xyz'') (py ''abc'') 0 0 False)"
proof -
  have f: "py ''xyz'' \<noteq> py ''txt''" "py ''xyz'' \<noteq> py ''vtt''" "py ''abc'' \<noteq> py ''tiktok''"
    by (simp_all add: py_def)
  have w: "\<forall>w\<in>set (all_words hi_there). formattable (w_start w) \<and> formattable (w_end w)"
    by (simp add: hi_there_words formattable_examples)
  have 1: "generate_output hi_there (py ''xyz'') (py ''abc'') 0 0 False
            = generate_output hi_there (py ''srt'') (py ''abc'') 0 0 False"
    using generate_output_unvalidated [of "py ''xyz''" hi_there "py ''abc''" 0 0 False] f
    by blast
  have 2: "generate_output hi_there (py ''srt'') (py ''abc'') 0 0 False
            = generate_output hi_there (py ''srt'') (py ''standard'') 0 0 False"
    using generate_output_unvalidated [of "py ''srt''" hi_there "py ''abc''" 0 0 False] f
    by blast
  have 3: "\<not> isl (generate_output hi_there (py ''xyz'') (py ''abc'') 0 0 False)"
    using generate_output_unvalidated [of "py ''xyz''" hi_there "py ''abc''" 0 0 False] w
    by blast
  show ?thesis using 1 2 3 by simp
qed

lemma xyz_stamps:
  "format_timestamp (Finite 0) (py ''xyz'') = Inr (py ''00:00:00,000'')"
  "format_timestamp (Finite (1 / 2)) (py ''xyz'') = Inr (py ''00:00:00,500'')"
  "format_timestamp (Finite 1) (py ''xyz'') = Inr (py ''00:00:01,000'')"
  by code_simp+

lemma hi_there_blocks_zero:
  "layout_blocks (py ''abc'') 0 0 (all_words hi_there)
     = [\<lparr>block_start = Finite 0, block_end = Finite (1 / 2), block_text = py ''Hi''\<rparr>,
        \<lparr>block_start = Finite (1 / 2), block_end = Finite 1, block_text = py ''there''\<rparr>]"
  by (simp add: hi_there_words pack_defs strip_def isspace_iff py_def)

theorem generate_output_unvalidated_counterexample:
  "generate_output hi_there (py ''xyz'') (py ''abc'') 0 0 False
     = Inr (py ''1'' @ [10] @ py ''00:00:00,000 --> 00:00:00,500'' @ [10] @ py ''Hi'' @ [10, 10]
            @ py ''2'' @ [10] @ py ''00:00:00,500 --> 00:00:01,000'' @ [10] @ py ''there''
            @ [10, 10], 2)"
proof -
  have f: "py ''xyz'' \<noteq> py ''txt''" "py ''xyz'' \<noteq> py ''vtt''"
    by (simp_all add: py_def)
  have "render_blocks (py ''xyz'') False
          [\<lparr>block_start = Finite 0, block_end = Finite (1 / 2), block_text = py ''Hi''\<rparr>,
           \<lparr>block_start = Finite (1 / 2), block_end = Finite 1, block_text = py ''there''\<rparr>]
        = Inr (py ''1'' @ [10] @ py ''00:00:00,000 --> 00:00:00,500'' @ [10] @ py ''Hi'' @ [10, 10]
            @ py ''2'' @ [10] @ py ''00:00:00,500 --> 00:00:01,000'' @ [10] @ py ''there''
            @ [10, 10])"
    by (simp add: render_blocks_def f xyz_stamps str_nat_digit) (simp add: py_def)
  moreover have "all_words hi_there \<noteq> []" "length (all_words hi_there) = 2"
    by (simp_all add: hi_there_words)
  ultimately show ?thesis
    by (simp add: generate_output_def Let_def hi_there_blocks_zero f)
qed

end
